theory Spec2Isabelle
  imports Complex_Main "HOL-Library.Monad_Syntax"
begin

section \<open>Modelling conventions\<close>

text \<open>
  The library is header-only C (\<^verbatim>\<open>tensor.h\<close>, \<^verbatim>\<open>vector.h\<close>, \<^verbatim>\<open>matrix.h\<close>).
  \<^item> The scalar type \<^verbatim>\<open>ttype\<close> is a build-time macro (default \<^verbatim>\<open>double\<close>). It is
    modelled by \<^typ>\<open>real\<close>: rounding, infinities and NaN are outside the model.
  \<^item> \<^verbatim>\<open>int\<close>, \<^verbatim>\<open>unsigned int\<close> and \<^verbatim>\<open>size_t\<close> values are modelled by \<^typ>\<open>int\<close> and
    \<^typ>\<open>nat\<close> without wrap-around; a loop counter that only runs upwards from 0 is a
    \<^typ>\<open>nat\<close>. The offset computation of \<^verbatim>\<open>get_value\<close> and \<^verbatim>\<open>set_value\<close> is given a second
    time with the range of a 32-bit \<^verbatim>\<open>int\<close> enforced, for the statement about addressing.
  \<^item> A function has the result type \<open>'a option\<close>. \<open>None\<close> stands for undefined
    behaviour of the C program: a read or write outside an allocated array, a
    \<^verbatim>\<open>va_arg\<close> with no argument left, or an allocation of negative size. The source has
    no checks of its own, so \<open>None\<close> is never a value the C code returns.
  \<^item> A \<^verbatim>\<open>for\<close> loop over \<open>0 \<le> i < n\<close> that updates local state is \<open>for_loop [0..<n] body\<close>;
    the loop stops with \<open>None\<close> at the first iteration that has undefined behaviour.
\<close>

section \<open>Loops\<close>

primrec for_loop :: "'i list \<Rightarrow> ('i \<Rightarrow> 's \<Rightarrow> 's option) \<Rightarrow> 's \<Rightarrow> 's option" where
  "for_loop [] body s = Some s"
| "for_loop (i # is) body s = Option.bind (body i s) (for_loop is body)"

section \<open>Tensor core (tensor.h), on values\<close>

text \<open>
  \<^verbatim>\<open>struct Tensor { int* shape; ttype* components; unsigned int rank; }\<close>.
  In this section the two arrays are held by value; a function that writes through
  \<^verbatim>\<open>tensor.components\<close> returns the tensor with the updated array.
\<close>

record Tensor =
  shape :: "int list"
  components :: "real list"
  rank :: nat

text \<open>Reading \<^verbatim>\<open>tensor.shape[j]\<close>, reading \<^verbatim>\<open>buf[i]\<close> and writing \<^verbatim>\<open>buf[i] = v\<close>.\<close>

definition shape_at :: "Tensor \<Rightarrow> nat \<Rightarrow> int option" where
  "shape_at tensor j = (if j < length (shape tensor) then Some (shape tensor ! j) else None)"

definition load :: "real list \<Rightarrow> int \<Rightarrow> real option" where
  "load buf i = (if 0 \<le> i \<and> i < int (length buf) then Some (buf ! nat i) else None)"

definition store :: "real list \<Rightarrow> int \<Rightarrow> real \<Rightarrow> real list option" where
  "store buf i v = (if 0 \<le> i \<and> i < int (length buf) then Some (buf[nat i := v]) else None)"

text \<open>\<^verbatim>\<open>va_arg(args, int)\<close>: the next variadic argument and the remaining ones.\<close>

definition va_arg :: "int list \<Rightarrow> (int \<times> int list) option" where
  "va_arg ap = (case ap of [] \<Rightarrow> None | a # rest \<Rightarrow> Some (a, rest))"

text \<open>
  \<^verbatim>\<open>malloc(sizeof(ttype) * length)\<close> followed by the loop that writes \<^verbatim>\<open>0.0\<close> to every
  cell. The size is a \<^verbatim>\<open>size_t\<close>: a negative product wraps to a size no allocation
  can satisfy, and the unchecked null pointer is then written through.
\<close>

definition alloc_zeroed :: "int \<Rightarrow> real list option" where
  "alloc_zeroed len =
     (if len < 0 then None
      else for_loop [0..<nat len] (\<lambda>i buf. store buf (int i) 0) (replicate (nat len) 0))"

text \<open>\<^verbatim>\<open>create_tensor(rank, ...)\<close>; the freshly allocated shape array starts as zeros.\<close>

definition create_tensor :: "nat \<Rightarrow> int list \<Rightarrow> Tensor option" where
  "create_tensor rnk args = do {
     (ap, len, shp) \<leftarrow> for_loop [0..<rnk]
        (\<lambda>i (ap, len, shp). do {
            (s, ap') \<leftarrow> va_arg ap;
            Some (ap', len * s, shp[i := s]) })
        (args, 1, replicate rnk 0);
     comps \<leftarrow> alloc_zeroed len;
     Some \<lparr>shape = shp, components = comps, rank = rnk\<rparr> }"

text \<open>
  The index computation shared, word for word, by \<^verbatim>\<open>set_value\<close> and \<^verbatim>\<open>get_value\<close>:
  \<^verbatim>\<open>
  int index = 0;
  for(int i = 0; i < tensor.rank; i ++) {
      int subIndex = va_arg(args, int);
      for(int j = 0; j < i; j ++) subIndex *= tensor.shape[j];
      index += subIndex;
  }\<close>
\<close>

definition flat_index :: "Tensor \<Rightarrow> int list \<Rightarrow> int option" where
  "flat_index tensor args = do {
     (ap, index) \<leftarrow> for_loop [0..<rank tensor]
        (\<lambda>i (ap, index). do {
            (subIndex, ap') \<leftarrow> va_arg ap;
            subIndex' \<leftarrow> for_loop [0..<i]
               (\<lambda>j subIndex. do { s \<leftarrow> shape_at tensor j; Some (subIndex * s) })
               subIndex;
            Some (ap', index + subIndex') })
        (args, 0);
     Some index }"

definition set_value :: "Tensor \<Rightarrow> real \<Rightarrow> int list \<Rightarrow> Tensor option" where
  "set_value tensor v args = do {
     index \<leftarrow> flat_index tensor args;
     comps \<leftarrow> store (components tensor) index v;
     Some (tensor\<lparr>components := comps\<rparr>) }"

definition get_value :: "Tensor \<Rightarrow> int list \<Rightarrow> real option" where
  "get_value tensor args = do {
     index \<leftarrow> flat_index tensor args;
     load (components tensor) index }"

text \<open>
  In the source \<^verbatim>\<open>index\<close> and \<^verbatim>\<open>subIndex\<close> are 32-bit \<^verbatim>\<open>int\<close>, and a product or sum
  outside the range of \<^verbatim>\<open>int\<close> is undefined behaviour. \<open>flat_index_int32\<close> is the same loop
  with that range enforced on every \<^verbatim>\<open>subIndex *= tensor.shape[j]\<close> and every
  \<^verbatim>\<open>index += subIndex\<close>; \<open>set_value_int32\<close> and \<open>get_value_int32\<close> are \<^verbatim>\<open>set_value\<close> and
  \<^verbatim>\<open>get_value\<close> on top of it. Wherever the checked computation returns an offset, the
  unchecked one returns the same (lemma \<open>flat_index_int32_agrees\<close>); the two part only
  for an offset beyond \<open>2^31 - 1\<close>, which needs a buffer of more than \<open>2^31 - 1\<close> cells.
\<close>

definition int_range :: "int \<Rightarrow> int option" where
  "int_range x = (if - 2147483648 \<le> x \<and> x \<le> 2147483647 then Some x else None)"

definition flat_index_int32 :: "Tensor \<Rightarrow> int list \<Rightarrow> int option" where
  "flat_index_int32 tensor args = do {
     (ap, index) \<leftarrow> for_loop [0..<rank tensor]
        (\<lambda>i (ap, index). do {
            (subIndex, ap') \<leftarrow> va_arg ap;
            subIndex' \<leftarrow> for_loop [0..<i]
               (\<lambda>j subIndex. do { s \<leftarrow> shape_at tensor j; int_range (subIndex * s) })
               subIndex;
            index' \<leftarrow> int_range (index + subIndex');
            Some (ap', index') })
        (args, 0);
     Some index }"



text \<open>Reading \<^verbatim>\<open>shape[i]\<close> through a bare \<^verbatim>\<open>int*\<close>.\<close>

definition read_int :: "int list \<Rightarrow> nat \<Rightarrow> int option" where
  "read_int arr i = (if i < length arr then Some (arr ! i) else None)"

text \<open>\<^verbatim>\<open>create_tensor_byptr(rank, shape)\<close>: the shape array is taken over, not copied.\<close>

definition create_tensor_byptr :: "nat \<Rightarrow> int list \<Rightarrow> Tensor option" where
  "create_tensor_byptr rnk shp = do {
     len \<leftarrow> for_loop [0..<rnk] (\<lambda>i len. do { s \<leftarrow> read_int shp i; Some (len * s) }) 1;
     comps \<leftarrow> alloc_zeroed len;
     Some \<lparr>shape = shp, components = comps, rank = rnk\<rparr> }"

text \<open>
  \<^verbatim>\<open>product_scalar(lhs, scalar)\<close>: copies the shape into a fresh array, builds the result
  with \<^verbatim>\<open>create_tensor_byptr\<close> and fills it. Nothing is written through \<^verbatim>\<open>lhs\<close>; the
  store-level model further down proves that for the whole family of element-wise
  operations.
\<close>

definition product_scalar :: "Tensor \<Rightarrow> real \<Rightarrow> Tensor option" where
  "product_scalar lhs scalar = do {
     (len, shp) \<leftarrow> for_loop [0..<rank lhs]
        (\<lambda>i (len, shp). do { s \<leftarrow> shape_at lhs i; Some (len * s, shp[i := s]) })
        (1, replicate (rank lhs) 0);
     tensor \<leftarrow> create_tensor_byptr (rank lhs) shp;
     comps \<leftarrow> for_loop [0..<nat len]
        (\<lambda>i comps. do { a \<leftarrow> load (components lhs) (int i); store comps (int i) (a * scalar) })
        (components tensor);
     Some (tensor\<lparr>components := comps\<rparr>) }"

section \<open>Tensor core (tensor.h), on an explicit store\<close>

text \<open>
  To state that a function allocates its result and leaves its operands alone, the arrays
  live in a store (type \<open>heap\<close>): a list of blocks, where the address of a block is its
  position and \<^verbatim>\<open>malloc\<close> appends a block, so that an address handed out later differs
  from every earlier one. No function modelled here calls
  \<^verbatim>\<open>free\<close>. A \<^verbatim>\<open>struct Tensor\<close> is passed by value and holds the two addresses. Array
  indices in these functions are loop counters that run upwards from 0, hence \<^typ>\<open>nat\<close>.
\<close>

datatype block = IntArray "int list" | RealArray "real list"

type_synonym heap = "block list"

record tensor_ref =
  shape_ptr :: nat
  components_ptr :: nat
  rank_of :: nat

text \<open>Reads and writes through a pointer; a wrong address, kind of block or index is \<open>None\<close>.\<close>

definition read_ints :: "heap \<Rightarrow> nat \<Rightarrow> nat \<Rightarrow> int option" where
  "read_ints h p i =
     (if p < length h
      then (case h ! p of IntArray xs \<Rightarrow> if i < length xs then Some (xs ! i) else None
            | RealArray _ \<Rightarrow> None)
      else None)"

definition write_ints :: "heap \<Rightarrow> nat \<Rightarrow> nat \<Rightarrow> int \<Rightarrow> heap option" where
  "write_ints h p i v =
     (if p < length h
      then (case h ! p of IntArray xs \<Rightarrow> if i < length xs then Some (h[p := IntArray (xs[i := v])]) else None
            | RealArray _ \<Rightarrow> None)
      else None)"

definition read_reals :: "heap \<Rightarrow> nat \<Rightarrow> nat \<Rightarrow> real option" where
  "read_reals h p i =
     (if p < length h
      then (case h ! p of RealArray xs \<Rightarrow> if i < length xs then Some (xs ! i) else None
            | IntArray _ \<Rightarrow> None)
      else None)"

definition write_reals :: "heap \<Rightarrow> nat \<Rightarrow> nat \<Rightarrow> real \<Rightarrow> heap option" where
  "write_reals h p i v =
     (if p < length h
      then (case h ! p of RealArray xs \<Rightarrow> if i < length xs then Some (h[p := RealArray (xs[i := v])]) else None
            | IntArray _ \<Rightarrow> None)
      else None)"

text \<open>
  \<^verbatim>\<open>malloc(sizeof(int) * rank)\<close> and \<^verbatim>\<open>malloc(sizeof(ttype) * length)\<close>. The new block is
  uninitialised in C; it starts as zeros here and every cell is written before it is read.
\<close>

definition malloc_ints :: "nat \<Rightarrow> heap \<Rightarrow> nat \<times> heap" where
  "malloc_ints n h = (length h, h @ [IntArray (replicate n 0)])"

definition malloc_reals :: "int \<Rightarrow> heap \<Rightarrow> (nat \<times> heap) option" where
  "malloc_reals len h =
     (if len < 0 then None else Some (length h, h @ [RealArray (replicate (nat len) 0)]))"

definition create_tensor_byptr_st :: "nat \<Rightarrow> nat \<Rightarrow> heap \<Rightarrow> (tensor_ref \<times> heap) option" where
  "create_tensor_byptr_st rnk shp h = do {
     len \<leftarrow> for_loop [0..<rnk] (\<lambda>i len. do { s \<leftarrow> read_ints h shp i; Some (len * s) }) 1;
     (comps, h1) \<leftarrow> malloc_reals len h;
     h2 \<leftarrow> for_loop [0..<nat len] (\<lambda>i h. write_reals h comps i 0) h1;
     Some (\<lparr>shape_ptr = shp, components_ptr = comps, rank_of = rnk\<rparr>, h2) }"

text \<open>
  The eight element-wise functions (\<^verbatim>\<open>sum\<close>, \<^verbatim>\<open>sum_scalar\<close>, \<^verbatim>\<open>subtract\<close>,
  \<^verbatim>\<open>subtract_scalar\<close>, \<^verbatim>\<open>divide\<close>, \<^verbatim>\<open>divide_scalar\<close>, \<^verbatim>\<open>hadamard\<close>, \<^verbatim>\<open>product_scalar\<close>)
  have the same text up to the operator and the second operand of the last loop. The
  common beginning, which allocates a shape array and copies \<^verbatim>\<open>lhs.shape\<close> into it while
  multiplying up \<^verbatim>\<open>length\<close>, is \<open>shape_copy_st\<close>; \<open>binary_st\<close> and \<open>scalar_st\<close> are the two
  forms of the whole function, with the operator as a parameter. Division by zero gives
  an infinity or NaN in C and is outside the model of the scalars.
\<close>

definition shape_copy_st :: "tensor_ref \<Rightarrow> heap \<Rightarrow> (nat \<times> int \<times> heap) option" where
  "shape_copy_st lhs h =
     (let (shp, h0) = malloc_ints (rank_of lhs) h in do {
        (len, h1) \<leftarrow> for_loop [0..<rank_of lhs]
           (\<lambda>i (len, h). do {
               s \<leftarrow> read_ints h (shape_ptr lhs) i;
               h' \<leftarrow> write_ints h shp i s;
               Some (len * s, h') })
           (1, h0);
        Some (shp, len, h1) })"

definition binary_st ::
  "(real \<Rightarrow> real \<Rightarrow> real) \<Rightarrow> tensor_ref \<Rightarrow> tensor_ref \<Rightarrow> heap \<Rightarrow> (tensor_ref \<times> heap) option" where
  "binary_st f lhs rhs h = do {
     (shp, len, h1) \<leftarrow> shape_copy_st lhs h;
     (tensor, h2) \<leftarrow> create_tensor_byptr_st (rank_of lhs) shp h1;
     h3 \<leftarrow> for_loop [0..<nat len]
        (\<lambda>i h. do {
            a \<leftarrow> read_reals h (components_ptr lhs) i;
            b \<leftarrow> read_reals h (components_ptr rhs) i;
            write_reals h (components_ptr tensor) i (f a b) })
        h2;
     Some (tensor, h3) }"

definition scalar_st ::
  "(real \<Rightarrow> real \<Rightarrow> real) \<Rightarrow> tensor_ref \<Rightarrow> real \<Rightarrow> heap \<Rightarrow> (tensor_ref \<times> heap) option" where
  "scalar_st f lhs scalar h = do {
     (shp, len, h1) \<leftarrow> shape_copy_st lhs h;
     (tensor, h2) \<leftarrow> create_tensor_byptr_st (rank_of lhs) shp h1;
     h3 \<leftarrow> for_loop [0..<nat len]
        (\<lambda>i h. do {
            a \<leftarrow> read_reals h (components_ptr lhs) i;
            write_reals h (components_ptr tensor) i (f a scalar) })
        h2;
     Some (tensor, h3) }"

definition sum_st :: "tensor_ref \<Rightarrow> tensor_ref \<Rightarrow> heap \<Rightarrow> (tensor_ref \<times> heap) option" where
  "sum_st = binary_st (+)"

definition subtract_st :: "tensor_ref \<Rightarrow> tensor_ref \<Rightarrow> heap \<Rightarrow> (tensor_ref \<times> heap) option" where
  "subtract_st = binary_st (-)"

definition divide_st :: "tensor_ref \<Rightarrow> tensor_ref \<Rightarrow> heap \<Rightarrow> (tensor_ref \<times> heap) option" where
  "divide_st = binary_st (/)"

definition hadamard_st :: "tensor_ref \<Rightarrow> tensor_ref \<Rightarrow> heap \<Rightarrow> (tensor_ref \<times> heap) option" where
  "hadamard_st = binary_st (*)"

definition sum_scalar_st :: "tensor_ref \<Rightarrow> real \<Rightarrow> heap \<Rightarrow> (tensor_ref \<times> heap) option" where
  "sum_scalar_st = scalar_st (+)"

definition subtract_scalar_st :: "tensor_ref \<Rightarrow> real \<Rightarrow> heap \<Rightarrow> (tensor_ref \<times> heap) option" where
  "subtract_scalar_st = scalar_st (-)"

definition divide_scalar_st :: "tensor_ref \<Rightarrow> real \<Rightarrow> heap \<Rightarrow> (tensor_ref \<times> heap) option" where
  "divide_scalar_st = scalar_st (/)"

definition product_scalar_st :: "tensor_ref \<Rightarrow> real \<Rightarrow> heap \<Rightarrow> (tensor_ref \<times> heap) option" where
  "product_scalar_st = scalar_st (*)"

section \<open>Vector layer (vector.h)\<close>

definition create_vector :: "int \<Rightarrow> Tensor option" where
  "create_vector n = create_tensor 1 [n]"

text \<open>\<^verbatim>\<open>cross(u, v)\<close> writes cells 0, 1, 2 of a new vector of length \<^verbatim>\<open>u.shape[0]\<close>.\<close>

definition cross :: "Tensor \<Rightarrow> Tensor \<Rightarrow> Tensor option" where
  "cross u v = do {
     n \<leftarrow> shape_at u 0;
     vector \<leftarrow> create_vector n;
     u0 \<leftarrow> load (components u) 0; u1 \<leftarrow> load (components u) 1; u2 \<leftarrow> load (components u) 2;
     v0 \<leftarrow> load (components v) 0; v1 \<leftarrow> load (components v) 1; v2 \<leftarrow> load (components v) 2;
     c0 \<leftarrow> store (components vector) 0 (u1 * v2 - u2 * v1);
     c1 \<leftarrow> store c0 1 (u2 * v0 - u0 * v2);
     c2 \<leftarrow> store c1 2 (u0 * v1 - u1 * v0);
     Some (vector\<lparr>components := c2\<rparr>) }"

section \<open>Loop rules\<close>

lemma for_loop_append:
  "for_loop (xs @ ys) body s = Option.bind (for_loop xs body s) (for_loop ys body)"
  by (induction xs arbitrary: s) (auto split: Option.bind_split)

lemma for_loop_snoc:
  "for_loop (xs @ [x]) body s = Option.bind (for_loop xs body s) (body x)"
proof -
  have "for_loop [x] body s' = body x s'" for s'
    by (cases "body x s'") simp_all
  then have "for_loop [x] body = body x"
    by (rule ext)
  then show ?thesis
    by (simp only: for_loop_append)
qed

lemma for_loop_Suc:
  "for_loop [0..<Suc n] body s = Option.bind (for_loop [0..<n] body s) (body n)"
  by (simp only: upt_Suc_append [OF le0] for_loop_snoc)

text \<open>Total correctness of a counting loop from an invariant.\<close>

lemma for_loop_rule:
  assumes "I 0 s0"
    and "\<And>i s. i < n \<Longrightarrow> I i s \<Longrightarrow> \<exists>s'. body i s = Some s' \<and> I (Suc i) s'"
  shows "\<exists>s'. for_loop [0..<n] body s0 = Some s' \<and> I n s'"
  using assms(2)
proof (induction n)
  case 0
  show ?case using assms(1) by simp
next
  case (Suc n)
  have "\<exists>s'. for_loop [0..<n] body s0 = Some s' \<and> I n s'"
    by (rule Suc.IH) (simp add: Suc.prems)
  then obtain s1 where s1: "for_loop [0..<n] body s0 = Some s1" "I n s1"
    by blast
  from Suc.prems [of n s1] s1(2) obtain s2 where "body n s1 = Some s2" "I (Suc n) s2"
    by auto
  with s1(1) show ?case
    by (simp only: for_loop_Suc) simp
qed

lemma for_loop_cong [fundef_cong]:
  assumes "xs = ys" and "s = s'" and "\<And>i t. i \<in> set ys \<Longrightarrow> body i t = body' i t"
  shows "for_loop xs body s = for_loop ys body' s'"
  unfolding assms(1,2) using assms(3)
proof (induction ys arbitrary: s')
  case Nil
  show ?case by simp
next
  case (Cons y ys)
  have "for_loop ys body = for_loop ys body'"
    by (rule ext, rule Cons.IH) (simp add: Cons.prems)
  then show ?case
    by (simp add: Cons.prems)
qed

lemma for_loop_preserves:
  assumes "for_loop xs body s = Some s'" and "P s"
    and "\<And>i t t'. i \<in> set xs \<Longrightarrow> P t \<Longrightarrow> body i t = Some t' \<Longrightarrow> P t'"
  shows "P s'"
  using assms
proof (induction xs arbitrary: s)
  case Nil
  then show ?case by simp
next
  case (Cons x xs)
  from Cons.prems(1) obtain s1 where s1: "body x s = Some s1" "for_loop xs body s1 = Some s'"
    by (auto simp: bind_eq_Some_conv)
  have "P s1"
    using Cons.prems(3) [of x s s1] Cons.prems(2) s1(1) by simp
  with s1(2) show ?case
    by (rule Cons.IH) (use Cons.prems(3) in auto)
qed


lemma for_loop_map:
  "for_loop (map h ys) body s = for_loop ys (\<lambda>y. body (h y)) s"
  by (induction ys arbitrary: s) (simp_all cong: Option.bind_cong)

lemma for_loop_product:
  "for_loop xs (\<lambda>x. for_loop ys (f x)) s = for_loop (List.product xs ys) (\<lambda>(x, y). f x y) s"
proof (induction xs arbitrary: s)
  case Nil
  show ?case by simp
next
  case (Cons x xs)
  have "for_loop xs (\<lambda>x. for_loop ys (f x)) = for_loop (List.product xs ys) (\<lambda>(x, y). f x y)"
    by (rule ext) (rule Cons.IH)
  then show ?case
    by (simp add: for_loop_append for_loop_map)
qed

lemma for_loop_accumulate:
  fixes acc :: "'a :: comm_monoid_add"
  assumes "\<And>it a. it \<in> set items \<Longrightarrow> body it a = Some (a + h it)"
  shows "for_loop items body acc = Some (acc + sum_list (map h items))"
  using assms
proof (induction items arbitrary: acc)
  case Nil
  show ?case by simp
next
  case (Cons it items)
  have "for_loop items body (acc + h it) = Some (acc + h it + sum_list (map h items))"
    by (rule Cons.IH) (simp add: Cons.prems)
  then show ?case
    by (simp add: Cons.prems add.assoc)
qed

section \<open>Allocation\<close>

lemma alloc_zeroed_eq:
  "alloc_zeroed len = (if len < 0 then None else Some (replicate (nat len) 0))"
proof -
  have "\<exists>buf. for_loop [0..<n] (\<lambda>i buf. store buf (int i) 0) (replicate n 0) = Some buf
          \<and> buf = replicate n 0" for n
  proof (rule for_loop_rule [where I = "\<lambda>k buf. buf = replicate n 0"], goal_cases)
    case 1
    show ?case by simp
  next
    case (2 i buf)
    have "(replicate n (0::real))[i := 0] = replicate n 0"
      using 2(1) by (intro nth_equalityI) (simp_all add: nth_list_update)
    with 2 show ?case
      by (simp add: store_def)
  qed
  then show ?thesis
    by (simp add: alloc_zeroed_def)
qed

lemma create_tensor_eq:
  assumes "rnk \<le> length args"
  shows "create_tensor rnk args =
     (if 0 \<le> prod_list (take rnk args)
      then Some \<lparr>shape = take rnk args,
                 components = replicate (nat (prod_list (take rnk args))) 0, rank = rnk\<rparr>
      else None)"
proof -
  let ?body = "\<lambda>i (ap, len, shp). do {
            (s, ap') \<leftarrow> va_arg ap;
            Some (ap', len * s, shp[i := s]) }"
  let ?I = "\<lambda>k (ap, len, shp). ap = drop k args \<and> len = prod_list (take k args)
              \<and> shp = take k args @ replicate (rnk - k) 0"
  have "\<exists>s'. for_loop [0..<rnk] ?body (args, 1, replicate rnk 0) = Some s' \<and> ?I rnk s'"
  proof (rule for_loop_rule [where I = ?I])
    show "?I 0 (args, 1, replicate rnk 0)" by simp
  next
    fix i s
    assume i: "i < rnk" and inv: "?I i s"
    from i assms have len: "i < length args" by simp
    then have "drop i args = args ! i # drop (Suc i) args"
      by (simp add: Cons_nth_drop_Suc)
    then have va: "va_arg (drop i args) = Some (args ! i, drop (Suc i) args)"
      by (simp add: va_arg_def)
    have upd: "(take i args @ replicate (rnk - i) 0)[i := args ! i]
                 = take (Suc i) args @ replicate (rnk - Suc i) 0"
      using i len
      by (intro nth_equalityI) (auto simp: nth_list_update nth_append less_Suc_eq min_def)
    show "\<exists>s'. ?body i s = Some s' \<and> ?I (Suc i) s'"
      using inv len by (auto simp: va upd take_Suc_conv_app_nth)
  qed
  then show ?thesis
    by (auto simp: create_tensor_def alloc_zeroed_eq)
qed

section \<open>Matrix layer (matrix.h)\<close>

text \<open>
  \<^verbatim>\<open>create_matrix(rows, cols)\<close> has \<^verbatim>\<open>unsigned int\<close> parameters, passes them through the
  variadic \<^verbatim>\<open>create_tensor(2, rows, cols)\<close>, which reads them back as \<^verbatim>\<open>int\<close>: the round
  trip is the identity on the bit pattern, so the parameters are \<^typ>\<open>int\<close> here.
\<close>

definition create_matrix :: "int \<Rightarrow> int \<Rightarrow> Tensor option" where
  "create_matrix rows cols = create_tensor 2 [rows, cols]"

lemma create_matrix_eq:
  "create_matrix rows cols =
     (if 0 \<le> rows * cols
      then Some \<lparr>shape = [rows, cols], components = replicate (nat (rows * cols)) 0, rank = 2\<rparr>
      else None)"
  by (simp add: create_matrix_def create_tensor_eq)

text \<open>\<^verbatim>\<open>create_indentity(n)\<close> (the source's spelling).\<close>

definition create_indentity :: "nat \<Rightarrow> Tensor option" where
  "create_indentity n = do {
     matrix \<leftarrow> create_matrix (int n) (int n);
     for_loop [0..<n]
       (\<lambda>c. for_loop [0..<n]
          (\<lambda>r matrix. if c = r then set_value matrix 1 [int c, int r] else Some matrix))
       matrix }"

definition matmul :: "Tensor \<Rightarrow> Tensor \<Rightarrow> Tensor option" where
  "matmul lhs rhs = do {
     rs1 \<leftarrow> shape_at rhs 1;
     ls0 \<leftarrow> shape_at lhs 0;
     result \<leftarrow> create_matrix rs1 ls0;
     for_loop [0..<nat ls0]
       (\<lambda>r. for_loop [0..<nat rs1]
          (\<lambda>c result. do {
              ls1 \<leftarrow> shape_at lhs 1;
              mir \<leftarrow> for_loop [0..<nat ls1]
                 (\<lambda>k mir. do {
                     a \<leftarrow> get_value rhs [int k, int r];
                     b \<leftarrow> get_value lhs [int c, int k];
                     Some (mir + a * b) })
                 0;
              set_value result mir [int r, int c] }))
       result }"

definition transpose_mat :: "Tensor \<Rightarrow> Tensor option" where
  "transpose_mat matrix = do {
     s1 \<leftarrow> shape_at matrix 1;
     s0 \<leftarrow> shape_at matrix 0;
     matrix_transposed \<leftarrow> create_matrix s1 s0;
     for_loop [0..<nat s0]
       (\<lambda>r. for_loop [0..<nat s1]
          (\<lambda>c matrix_transposed. do {
              v \<leftarrow> get_value matrix [int r, int c];
              set_value matrix_transposed v [int c, int r] }))
       matrix_transposed }"

text \<open>
  \<^verbatim>\<open>determinant\<close>, \<^verbatim>\<open>cofactor\<close> and \<^verbatim>\<open>minor\<close> call each other. The sign
  \<^verbatim>\<open>int sign = pow(-1.0, row + col)\<close> is \<open>(- 1) ^ (row + col)\<close>. \<^verbatim>\<open>minor\<close> fills the
  sub-matrix through \<^verbatim>\<open>sub_matrix.components[index]\<close> with a running \<^verbatim>\<open>index\<close>; the
  \<^verbatim>\<open>destroy_tensor(sub_matrix)\<close> that follows frees the sub-matrix and has no counterpart
  on values.
\<close>

lemma minor_copy_frame:
  assumes "for_loop rs
        (\<lambda>r. for_loop cs
           (\<lambda>c (sub, index).
              if row \<noteq> r \<and> col \<noteq> c then do {
                v \<leftarrow> get_value matrix [int r, int c];
                comps \<leftarrow> store (components sub) index v;
                Some (sub\<lparr>components := comps\<rparr>, index + 1) }
              else Some (sub, index)))
        (sub0 :: Tensor, i0) = Some (sub', i')"
  shows "shape sub' = shape sub0 \<and> rank sub' = rank sub0"
proof -
  let ?P = "\<lambda>(t :: Tensor, i :: int). shape t = shape sub0 \<and> rank t = rank sub0"
  let ?inner = "\<lambda>r c (sub, index).
              if row \<noteq> r \<and> col \<noteq> c then do {
                v \<leftarrow> get_value matrix [int r, int c];
                comps \<leftarrow> store (components sub) index v;
                Some (sub\<lparr>components := comps\<rparr>, index + 1) }
              else Some (sub, index)"
  have step: "?P t'" if "?P t" "?inner r c t = Some t'" for r c t t'
  proof -
    obtain sub index where t: "t = (sub, index)" by (cases t)
    show ?thesis
    proof (cases "row \<noteq> r \<and> col \<noteq> c")
      case True
      with that(2) obtain v comps where "t' = (sub\<lparr>components := comps\<rparr>, index + 1)"
        by (auto simp: t bind_eq_Some_conv)
      with that(1) show ?thesis by (simp add: t)
    next
      case False
      with that show ?thesis by (auto simp: t)
    qed
  qed
  have row_step: "?P t'" if "?P t" "for_loop cs (?inner r) t = Some t'" for r t t'
    using that(2,1) by (rule for_loop_preserves) (rule step)
  have "?P (sub', i')"
    using assms by (rule for_loop_preserves [where P = ?P]) (simp, rule row_step)
  then show ?thesis by simp
qed

function determinant :: "Tensor \<Rightarrow> real option"
  and cofactor :: "Tensor \<Rightarrow> nat \<Rightarrow> nat \<Rightarrow> real option"
  and minor :: "Tensor \<Rightarrow> nat \<Rightarrow> nat \<Rightarrow> real option"
where
  "determinant matrix = do {
     s0 \<leftarrow> shape_at matrix 0;
     s1 \<leftarrow> shape_at matrix 1;
     if s0 \<noteq> s1 then Some 0
     else if s1 = 2 then do {
       a \<leftarrow> get_value matrix [0, 0];
       d \<leftarrow> get_value matrix [1, 1];
       c \<leftarrow> get_value matrix [1, 0];
       b \<leftarrow> get_value matrix [0, 1];
       Some (a * d - c * b) }
     else for_loop [0..<nat s0]
       (\<lambda>r result. do {
           cof \<leftarrow> cofactor matrix r 0;
           v \<leftarrow> get_value matrix [int r, 0];
           Some (result + v * cof) })
       0 }"
| "cofactor matrix row col = do {
     m \<leftarrow> minor matrix row col;
     Some ((- 1) ^ (row + col) * m) }"
| "minor matrix row col = do {
     s1 \<leftarrow> shape_at matrix 1;
     sub_matrix \<leftarrow> create_matrix (s1 - 1) (s1 - 1);
     s0 \<leftarrow> shape_at matrix 0;
     (sub_matrix', index) \<leftarrow> for_loop [0..<nat s0]
        (\<lambda>r. for_loop [0..<nat s1]
           (\<lambda>c (sub, index).
              if row \<noteq> r \<and> col \<noteq> c then do {
                v \<leftarrow> get_value matrix [int r, int c];
                comps \<leftarrow> store (components sub) index v;
                Some (sub\<lparr>components := comps\<rparr>, index + 1) }
              else Some (sub, index)))
        (sub_matrix, 0);
     determinant sub_matrix' }"
  by pat_completeness auto

termination
proof (relation "measure (\<lambda>x. case x of
            Inl m \<Rightarrow> 3 * nat (shape m ! 1)
          | Inr (Inl (m, _, _)) \<Rightarrow> 3 * nat (shape m ! 1 - 1) + 2
          | Inr (Inr (m, _, _)) \<Rightarrow> 3 * nat (shape m ! 1 - 1) + 1)", goal_cases)
  case 1
  show ?case by simp
next
  case (2 matrix s0 s1 r)
  then show ?case
    by (auto simp: shape_at_def split: if_splits)
next
  case (3 matrix row col)
  show ?case by simp
next
  case (4 matrix row col s1 sub s0 res sub' index)
  from 4(2) have "shape sub = [s1 - 1, s1 - 1]"
    by (auto simp: create_matrix_eq split: if_splits)
  moreover from 4(4,5) have "shape sub' = shape sub"
    using minor_copy_frame [of "[0..<nat s0]" "[0..<nat s1]" row col matrix sub 0 sub' index]
    by simp
  ultimately show ?case
    using 4(1) by (auto simp: shape_at_def split: if_splits)
qed

declare determinant.simps [simp del] cofactor.simps [simp del] minor.simps [simp del]

definition cofactor_matrix :: "Tensor \<Rightarrow> Tensor option" where
  "cofactor_matrix matrix = do {
     s0 \<leftarrow> shape_at matrix 0;
     s1 \<leftarrow> shape_at matrix 1;
     cof_matrix \<leftarrow> create_matrix s0 s1;
     for_loop [0..<nat s0]
       (\<lambda>r. for_loop [0..<nat s1]
          (\<lambda>c cof_matrix. do {
              v \<leftarrow> cofactor matrix r c;
              set_value cof_matrix v [int r, int c] }))
       cof_matrix }"

definition adjugate_matrix :: "Tensor \<Rightarrow> Tensor option" where
  "adjugate_matrix matrix = do {
     cof_matrix \<leftarrow> cofactor_matrix matrix;
     transpose_mat cof_matrix }"

text \<open>
  \<^verbatim>\<open>inverse\<close>: the tensor returned by \<^verbatim>\<open>product_scalar(inv, inv_determinant)\<close> is
  dropped by the source, and \<^verbatim>\<open>inv\<close> is returned as \<^verbatim>\<open>adjugate_matrix\<close> left it.
\<close>

definition inverse_mat :: "Tensor \<Rightarrow> Tensor option" where
  "inverse_mat matrix = do {
     det \<leftarrow> determinant matrix;
     inv \<leftarrow> adjugate_matrix matrix;
     let inv_determinant = 1 / det;
     _ \<leftarrow> product_scalar inv inv_determinant;
     Some inv }"

section \<open>The addressing formula\<close>

lemma scale_loop:
  assumes "i \<le> length (shape t)"
  shows "for_loop [0..<i] (\<lambda>j subIndex. do { s \<leftarrow> shape_at t j; Some (subIndex * s) }) a
         = Some (a * (\<Prod>j<i. shape t ! j))"
  using assms
proof (induction i)
  case 0
  show ?case by simp
next
  case (Suc i)
  then show ?case
    by (simp add: for_loop_snoc shape_at_def mult.assoc)
qed

lemma flat_index_formula:
  assumes "rank t \<le> length (shape t)" and "rank t \<le> length args"
  shows "flat_index t args = Some (\<Sum>k<rank t. args ! k * (\<Prod>j<k. shape t ! j))"
proof -
  let ?body = "\<lambda>i (ap, index). do {
            (subIndex, ap') \<leftarrow> va_arg ap;
            subIndex' \<leftarrow> for_loop [0..<i]
               (\<lambda>j subIndex. do { s \<leftarrow> shape_at t j; Some (subIndex * s) })
               subIndex;
            Some (ap', index + subIndex') }"
  let ?I = "\<lambda>k (ap, index). ap = drop k args
              \<and> index = (\<Sum>k'<k. args ! k' * (\<Prod>j<k'. shape t ! j))"
  have "\<exists>s'. for_loop [0..<rank t] ?body (args, 0) = Some s' \<and> ?I (rank t) s'"
  proof (rule for_loop_rule)
    show "?I 0 (args, 0)" by simp
  next
    fix i s
    assume i: "i < rank t" and inv: "?I i s"
    obtain ap index where s: "s = (ap, index)" by (cases s)
    from i assms have len: "i < length args" "i \<le> length (shape t)" by auto
    from inv s have ap: "ap = drop i args"
      by simp
    from len(1) have "drop i args = args ! i # drop (Suc i) args"
      by (simp add: Cons_nth_drop_Suc)
    then have va: "va_arg ap = Some (args ! i, drop (Suc i) args)"
      by (simp add: ap va_arg_def)
    show "\<exists>s'. ?body i s = Some s' \<and> ?I (Suc i) s'"
      using inv by (simp add: s va [unfolded ap] scale_loop [OF len(2)])
  qed
  then show ?thesis
    by (auto simp: flat_index_def)
qed









text \<open>
  Beyond that size the two part: for shape \<open>[65536, 65536]\<close> and the multi-index
  \<open>(0, 32768)\<close> the product \<open>32768 * 65536\<close> is \<open>2^31\<close>, one more than the largest \<^verbatim>\<open>int\<close>.
\<close>

lemma flat_index_int32_overflow:
  "flat_index_int32 \<lparr>shape = [65536, 65536], components = cs, rank = 2\<rparr> [0, 32768] = None \<and>
   flat_index \<lparr>shape = [65536, 65536], components = cs, rank = 2\<rparr> [0, 32768] = Some 2147483648"
proof -
  have "[0..<2] = [0, Suc 0]"
    by (simp add: numeral_2_eq_2)
  then show ?thesis
    by (simp add: flat_index_int32_def flat_index_def va_arg_def shape_at_def int_range_def)
qed



section \<open>Matrices: cells, frames and whole-matrix loops\<close>

text \<open>
  \<open>is_matrix t a b\<close>: a rank-2 tensor of shape \<open>[a, b]\<close> that satisfies the data-model
  invariant. \<open>same_frame\<close> relates a tensor to one that differs from it in the contents
  of the component buffer only.
\<close>

definition same_frame :: "Tensor \<Rightarrow> Tensor \<Rightarrow> bool" where
  "same_frame t' t \<longleftrightarrow>
     shape t' = shape t \<and> rank t' = rank t \<and> length (components t') = length (components t)"

definition is_matrix :: "Tensor \<Rightarrow> nat \<Rightarrow> nat \<Rightarrow> bool" where
  "is_matrix t a b \<longleftrightarrow>
     rank t = 2 \<and> shape t = [int a, int b] \<and> length (components t) = a * b"

lemma write_loop:
  fixes t :: Tensor
  assumes "inj_on k {it \<in> set items. w it}"
    and "\<And>it. it \<in> set items \<Longrightarrow> w it \<Longrightarrow> k it < length (components t)"
    and "\<And>it u. it \<in> set items \<Longrightarrow> same_frame u t \<Longrightarrow>
           body it u = Some (if w it then u\<lparr>components := (components u)[k it := g it]\<rparr> else u)"
  shows "\<exists>t'. for_loop items body t = Some t' \<and> same_frame t' t \<and>
           (\<forall>it \<in> set items. w it \<longrightarrow> components t' ! k it = g it) \<and>
           (\<forall>x. x \<notin> k ` {it \<in> set items. w it} \<longrightarrow> components t' ! x = components t ! x)"
  using assms
proof (induction items arbitrary: t)
  case Nil
  show ?case by (simp add: same_frame_def)
next
  case (Cons it items)
  let ?u = "if w it then t\<lparr>components := (components t)[k it := g it]\<rparr> else t"
  have frame: "same_frame ?u t"
    by (simp add: same_frame_def)
  have step: "body it t = Some ?u"
    using Cons.prems(3) [of it t] by (simp add: same_frame_def)
  have inj: "inj_on k {x \<in> set items. w x}"
    using Cons.prems(1) by (rule inj_on_subset) auto
  have "\<exists>t'. for_loop items body ?u = Some t' \<and> same_frame t' ?u \<and>
           (\<forall>x \<in> set items. w x \<longrightarrow> components t' ! k x = g x) \<and>
           (\<forall>x. x \<notin> k ` {x \<in> set items. w x} \<longrightarrow> components t' ! x = components ?u ! x)"
  proof (rule Cons.IH [OF inj])
    fix x assume "x \<in> set items" "w x"
    then show "k x < length (components ?u)"
      using Cons.prems(2) [of x] by simp
  next
    fix x u assume x: "x \<in> set items" and "same_frame u ?u"
    then have "same_frame u t"
      using frame by (simp add: same_frame_def)
    then show "body x u
       = Some (if w x then u\<lparr>components := (components u)[k x := g x]\<rparr> else u)"
      using Cons.prems(3) [of x u] x by simp
  qed
  then obtain t' where t': "for_loop items body ?u = Some t'" "same_frame t' ?u"
    "\<forall>x \<in> set items. w x \<longrightarrow> components t' ! k x = g x"
    "\<forall>x. x \<notin> k ` {x \<in> set items. w x} \<longrightarrow> components t' ! x = components ?u ! x"
    by blast
  have 1: "for_loop (it # items) body t = Some t'"
    using step t'(1) by simp
  have 2: "same_frame t' t"
    using t'(2) frame by (simp add: same_frame_def)
  have 3: "components t' ! k it = g it" if "w it"
  proof (cases "k it \<in> k ` {x \<in> set items. w x}")
    case True
    then obtain x where x: "x \<in> set items" "w x" "k x = k it" by auto
    with Cons.prems(1) that have "x = it"
      by (auto simp: inj_on_def)
    with x t'(3) show ?thesis by auto
  next
    case False
    with t'(4) have "components t' ! k it = components ?u ! k it" by blast
    also have "\<dots> = g it"
      using that Cons.prems(2) [of it] by simp
    finally show ?thesis .
  qed
  have 4: "components t' ! x = components t ! x" if "x \<notin> k ` {y \<in> set (it # items). w y}" for x
  proof -
    from that have "x \<notin> k ` {y \<in> set items. w y}" by auto
    with t'(4) have "components t' ! x = components ?u ! x" by blast
    also have "\<dots> = components t ! x"
    proof (cases "w it")
      case True
      with that have "k it \<noteq> x" by auto
      then show ?thesis by simp
    next
      case False
      then show ?thesis by simp
    qed
    finally show ?thesis .
  qed
  show ?case
    using 1 2 3 4 t'(3) by auto
qed

lemma cell_in_range:
  fixes i j a b :: nat
  assumes "i < a" and "j < b"
  shows "i + j * a < a * b"
proof -
  have "i + j * a < a + j * a" using assms(1) by simp
  also have "\<dots> = (Suc j) * a" by simp
  also have "\<dots> \<le> b * a" using assms(2) by (intro mult_le_mono1) simp
  finally show ?thesis by (simp add: mult.commute)
qed

lemma cell_inj:
  fixes i j i' j' a :: nat
  assumes "i < a" and "i' < a" and "i + j * a = i' + j' * a"
  shows "i = i' \<and> j = j'"
proof -
  have "(i + j * a) mod a = i" "(i' + j' * a) mod a = i'"
    using assms(1,2) by simp_all
  with assms(3) have i: "i = i'" by simp
  have "(i + j * a) div a = j" "(i' + j' * a) div a = j'"
    using assms(1,2) by simp_all
  with assms(3) have "j = j'" by simp
  with i show ?thesis by simp
qed

lemma flat_index_matrix:
  assumes "rank t = 2" and "shape t = [a, b]"
  shows "flat_index t [i, j] = Some (i + j * a)"
proof -
  have two: "{..<2::nat} = {0, 1}" by auto
  show ?thesis
    using flat_index_formula [of t "[i, j]"] assms by (simp add: two)
qed

lemma shape_at_matrix:
  assumes "is_matrix t a b"
  shows "shape_at t 0 = Some (int a)" and "shape_at t 1 = Some (int b)"
    and "shape_at t (Suc 0) = Some (int b)"
  using assms by (simp_all add: is_matrix_def shape_at_def)

lemma get_value_matrix:
  assumes "is_matrix t a b" and "i < a" and "j < b"
  shows "get_value t [int i, int j] = Some (components t ! (i + j * a))"
proof -
  have "flat_index t [int i, int j] = Some (int (i + j * a))"
    using assms(1) by (simp add: is_matrix_def flat_index_matrix)
  moreover have "i + j * a < length (components t)"
    using cell_in_range [OF assms(2,3)] assms(1) by (simp add: is_matrix_def)
  ultimately show ?thesis
    by (simp add: get_value_def load_def del: of_nat_add of_nat_mult)
qed

lemma set_value_matrix:
  assumes "is_matrix t a b" and "i < a" and "j < b"
  shows "set_value t v [int i, int j] = Some (t\<lparr>components := (components t)[i + j * a := v]\<rparr>)"
proof -
  have "flat_index t [int i, int j] = Some (int (i + j * a))"
    using assms(1) by (simp add: is_matrix_def flat_index_matrix)
  moreover have "i + j * a < length (components t)"
    using cell_in_range [OF assms(2,3)] assms(1) by (simp add: is_matrix_def)
  ultimately show ?thesis
    by (simp add: set_value_def store_def del: of_nat_add of_nat_mult)
qed

lemma create_matrix_nat:
  "create_matrix (int a) (int b)
     = Some \<lparr>shape = [int a, int b], components = replicate (a * b) 0, rank = 2\<rparr>"
proof -
  have "nat (int a * int b) = a * b"
    by (simp add: nat_mult_distrib)
  then show ?thesis
    by (simp add: create_matrix_eq)
qed

lemma is_matrix_frame:
  assumes "is_matrix t a b" and "same_frame u t"
  shows "is_matrix u a b"
  using assms by (simp add: is_matrix_def same_frame_def)

lemma matrix_eqI:
  assumes "is_matrix x a b" and "is_matrix y a b"
    and "\<And>i j. i < a \<Longrightarrow> j < b \<Longrightarrow> components x ! (i + j * a) = components y ! (i + j * a)"
  shows "x = y"
proof -
  have "components x = components y"
  proof (rule nth_equalityI)
    show "length (components x) = length (components y)"
      using assms(1,2) by (simp add: is_matrix_def)
  next
    fix n assume "n < length (components x)"
    then have n: "n < a * b" using assms(1) by (simp add: is_matrix_def)
    then have a: "0 < a" by (cases a) simp_all
    then have "n mod a < a" by simp
    moreover have "n div a < b"
      using n by (simp add: less_mult_imp_div_less mult.commute)
    ultimately have "components x ! (n mod a + n div a * a) = components y ! (n mod a + n div a * a)"
      by (rule assms(3))
    then show "components x ! n = components y ! n" by simp
  qed
  then show ?thesis
    using assms(1,2) by (simp add: is_matrix_def)
qed

section \<open>Identity, transpose and product of square matrices\<close>

lemma zero_matrix:
  "is_matrix \<lparr>shape = [int a, int b], components = replicate (a * b) 0, rank = 2\<rparr> a b"
  by (simp add: is_matrix_def)

lemma create_indentity_eq:
  "\<exists>I. create_indentity n = Some I \<and> is_matrix I n n \<and>
       (\<forall>i<n. \<forall>j<n. components I ! (i + j * n) = (if i = j then 1 else 0))"
proof -
  let ?Z = "\<lparr>shape = [int n, int n], components = replicate (n * n) (0::real), rank = 2\<rparr>"
  let ?items = "List.product [0..<n] [0..<n]"
  let ?w = "\<lambda>(c :: nat, r :: nat). c = r"
  let ?k = "\<lambda>(c :: nat, r :: nat). c + r * n"
  let ?body = "\<lambda>(c, r) matrix. if c = r then set_value matrix 1 [int c, int r] else Some matrix"
  have Z: "is_matrix ?Z n n" by (rule zero_matrix)
  have "\<exists>t'. for_loop ?items ?body ?Z = Some t' \<and> same_frame t' ?Z \<and>
           (\<forall>it \<in> set ?items. ?w it \<longrightarrow> components t' ! ?k it = (\<lambda>_. 1) it) \<and>
           (\<forall>x. x \<notin> ?k ` {it \<in> set ?items. ?w it} \<longrightarrow> components t' ! x = components ?Z ! x)"
  proof (rule write_loop)
    show "inj_on ?k {it \<in> set ?items. ?w it}"
      by (auto simp: inj_on_def dest: cell_inj)
  next
    fix it assume "it \<in> set ?items" "?w it"
    then show "?k it < length (components ?Z)"
      by (auto intro: cell_in_range)
  next
    fix it u assume it: "it \<in> set ?items" and "same_frame u ?Z"
    then have u: "is_matrix u n n"
      using Z by (simp add: is_matrix_frame)
    obtain c r where cr: "it = (c, r)" by (cases it)
    with it have "c < n" "r < n" by auto
    then show "?body it u = Some (if ?w it then u\<lparr>components := (components u)[?k it := 1]\<rparr> else u)"
      by (simp add: cr set_value_matrix [OF u])
  qed
  then obtain I where I: "for_loop ?items ?body ?Z = Some I" "same_frame I ?Z"
    "\<forall>it \<in> set ?items. ?w it \<longrightarrow> components I ! ?k it = 1"
    "\<forall>x. x \<notin> ?k ` {it \<in> set ?items. ?w it} \<longrightarrow> components I ! x = components ?Z ! x"
    by blast
  have 1: "create_indentity n = Some I"
    using I(1) by (simp add: create_indentity_def create_matrix_nat for_loop_product)
  have 2: "is_matrix I n n"
    using Z I(2) by (rule is_matrix_frame)
  have 3: "components I ! (i + j * n) = (if i = j then 1 else 0)" if "i < n" "j < n" for i j
  proof (cases "i = j")
    case True
    with that I(3) show ?thesis by auto
  next
    case False
    have "i + j * n \<notin> ?k ` {it \<in> set ?items. ?w it}"
    proof
      assume "i + j * n \<in> ?k ` {it \<in> set ?items. ?w it}"
      then obtain c where "c < n" "i + j * n = c + c * n" by auto
      with that have "i = c \<and> j = c" by (intro cell_inj) simp_all
      with False show False by simp
    qed
    with I(4) have "components I ! (i + j * n) = components ?Z ! (i + j * n)" by blast
    also have "\<dots> = 0"
      using cell_in_range [OF that] by simp
    finally show ?thesis using False by simp
  qed
  from 1 2 3 show ?thesis by blast
qed

lemma transpose_mat_eq:
  assumes "is_matrix M a b"
  shows "\<exists>T. transpose_mat M = Some T \<and> is_matrix T b a \<and>
           (\<forall>r<a. \<forall>c<b. components T ! (c + r * b) = components M ! (r + c * a))"
proof -
  let ?Z = "\<lparr>shape = [int b, int a], components = replicate (b * a) (0::real), rank = 2\<rparr>"
  let ?items = "List.product [0..<a] [0..<b]"
  let ?k = "\<lambda>(r :: nat, c :: nat). c + r * b"
  let ?g = "\<lambda>(r :: nat, c :: nat). components M ! (r + c * a)"
  let ?body = "\<lambda>(r, c) matrix_transposed. do {
              v \<leftarrow> get_value M [int r, int c];
              set_value matrix_transposed v [int c, int r] }"
  have Z: "is_matrix ?Z b a" by (rule zero_matrix)
  have "\<exists>t'. for_loop ?items ?body ?Z = Some t' \<and> same_frame t' ?Z \<and>
           (\<forall>it \<in> set ?items. (\<lambda>_. True) it \<longrightarrow> components t' ! ?k it = ?g it) \<and>
           (\<forall>x. x \<notin> ?k ` {it \<in> set ?items. (\<lambda>_. True) it}
                 \<longrightarrow> components t' ! x = components ?Z ! x)"
  proof (rule write_loop)
    show "inj_on ?k {it \<in> set ?items. True}"
      by (auto simp: inj_on_def dest: cell_inj)
  next
    fix it assume "it \<in> set ?items"
    then show "?k it < length (components ?Z)"
      by (auto intro: cell_in_range)
  next
    fix it u assume it: "it \<in> set ?items" and "same_frame u ?Z"
    then have u: "is_matrix u b a"
      using Z by (simp add: is_matrix_frame)
    obtain r c where rc: "it = (r, c)" by (cases it)
    with it have "r < a" "c < b" by auto
    then show "?body it u = Some (if True then u\<lparr>components := (components u)[?k it := ?g it]\<rparr> else u)"
      by (simp add: rc set_value_matrix [OF u] get_value_matrix [OF assms])
  qed
  then obtain T where T: "for_loop ?items ?body ?Z = Some T" "same_frame T ?Z"
    "\<forall>it \<in> set ?items. components T ! ?k it = ?g it"
    by auto
  have 1: "transpose_mat M = Some T"
    using T(1) by (simp add: transpose_mat_def shape_at_matrix [OF assms] create_matrix_nat
        for_loop_product)
  have 2: "is_matrix T b a"
    using Z T(2) by (rule is_matrix_frame)
  from 1 2 T(3) show ?thesis by auto
qed

lemma matmul_eq:
  assumes "is_matrix L m n" and "is_matrix R n m"
  shows "\<exists>X. matmul L R = Some X \<and> is_matrix X m m \<and>
           (\<forall>r<m. \<forall>c<m. components X ! (r + c * m)
               = (\<Sum>k<n. components R ! (k + r * n) * components L ! (c + k * m)))"
proof -
  let ?Z = "\<lparr>shape = [int m, int m], components = replicate (m * m) (0::real), rank = 2\<rparr>"
  let ?items = "List.product [0..<m] [0..<m]"
  let ?k = "\<lambda>(r :: nat, c :: nat). r + c * m"
  let ?g = "\<lambda>(r :: nat, c :: nat). \<Sum>k<n. components R ! (k + r * n) * components L ! (c + k * m)"
  let ?body = "\<lambda>(r, c) result. do {
              ls1 \<leftarrow> shape_at L 1;
              mir \<leftarrow> for_loop [0..<nat ls1]
                 (\<lambda>k mir. do {
                     a \<leftarrow> get_value R [int k, int r];
                     b \<leftarrow> get_value L [int c, int k];
                     Some (mir + a * b) })
                 0;
              set_value result mir [int r, int c] }"
  have Z: "is_matrix ?Z m m" by (rule zero_matrix)
  have inner: "for_loop [0..<n]
                 (\<lambda>k mir. do {
                     a \<leftarrow> get_value R [int k, int r];
                     b \<leftarrow> get_value L [int c, int k];
                     Some (mir + a * b) })
                 0 = Some (?g (r, c))" if "r < m" "c < m" for r c
  proof -
    have "for_loop [0..<n]
                 (\<lambda>k mir. do {
                     a \<leftarrow> get_value R [int k, int r];
                     b \<leftarrow> get_value L [int c, int k];
                     Some (mir + a * b) })
                 0 = Some (0 + sum_list (map (\<lambda>k. components R ! (k + r * n) * components L ! (c + k * m)) [0..<n]))"
      using that
      by (intro for_loop_accumulate)
        (simp add: get_value_matrix [OF assms(1)] get_value_matrix [OF assms(2)])
    then show ?thesis
      by (simp add: interv_sum_list_conv_sum_set_nat atLeast0LessThan)
  qed
  have "\<exists>t'. for_loop ?items ?body ?Z = Some t' \<and> same_frame t' ?Z \<and>
           (\<forall>it \<in> set ?items. (\<lambda>_. True) it \<longrightarrow> components t' ! ?k it = ?g it) \<and>
           (\<forall>x. x \<notin> ?k ` {it \<in> set ?items. (\<lambda>_. True) it}
                 \<longrightarrow> components t' ! x = components ?Z ! x)"
  proof (rule write_loop)
    show "inj_on ?k {it \<in> set ?items. True}"
      by (auto simp: inj_on_def dest: cell_inj)
  next
    fix it assume "it \<in> set ?items"
    then show "?k it < length (components ?Z)"
      by (auto intro: cell_in_range)
  next
    fix it u assume it: "it \<in> set ?items" and "same_frame u ?Z"
    then have u: "is_matrix u m m"
      using Z by (simp add: is_matrix_frame)
    obtain r c where rc: "it = (r, c)" by (cases it)
    with it have "r < m" "c < m" by auto
    then show "?body it u = Some (if True then u\<lparr>components := (components u)[?k it := ?g it]\<rparr> else u)"
      using inner [of r c]
      by (simp add: rc set_value_matrix [OF u] shape_at_matrix [OF assms(1)])
  qed
  then obtain X where X: "for_loop ?items ?body ?Z = Some X" "same_frame X ?Z"
    "\<forall>it \<in> set ?items. components X ! ?k it = ?g it"
    by auto
  have 1: "matmul L R = Some X"
    using X(1) by (simp add: matmul_def shape_at_matrix [OF assms(1)] shape_at_matrix [OF assms(2)]
        create_matrix_nat for_loop_product)
  have 2: "is_matrix X m m"
    using Z X(2) by (rule is_matrix_frame)
  from 1 2 X(3) show ?thesis by auto
qed

section \<open>Determinant, cofactor and minor\<close>

lemma copy_loop:
  fixes sub0 :: Tensor
  assumes "\<And>it. it \<in> set items \<Longrightarrow> cond it \<Longrightarrow> val it = Some (g it)"
    and "i0 + length (filter cond items) \<le> length (components sub0)"
  shows "for_loop items
           (\<lambda>it (sub, index).
              if cond it then do {
                v \<leftarrow> val it;
                comps \<leftarrow> store (components sub) index v;
                Some (sub\<lparr>components := comps\<rparr>, index + 1) }
              else Some (sub, index))
           (sub0, int i0)
         = Some (sub0\<lparr>components := take i0 (components sub0) @ map g (filter cond items)
                     @ drop (i0 + length (filter cond items)) (components sub0)\<rparr>,
                 int (i0 + length (filter cond items)))"
  using assms
proof (induction items arbitrary: sub0 i0)
  case Nil
  show ?case by simp
next
  case (Cons it items)
  show ?case
  proof (cases "cond it")
    case False
    have "for_loop items
           (\<lambda>it (sub, index).
              if cond it then do {
                v \<leftarrow> val it;
                comps \<leftarrow> store (components sub) index v;
                Some (sub\<lparr>components := comps\<rparr>, index + 1) }
              else Some (sub, index))
           (sub0, int i0)
         = Some (sub0\<lparr>components := take i0 (components sub0) @ map g (filter cond items)
                     @ drop (i0 + length (filter cond items)) (components sub0)\<rparr>,
                 int (i0 + length (filter cond items)))"
      by (rule Cons.IH) (use Cons.prems False in simp_all)
    with False show ?thesis by simp
  next
    case True
    let ?xs = "components sub0"
    let ?sub1 = "sub0\<lparr>components := ?xs[i0 := g it]\<rparr>"
    let ?l = "length (filter cond items)"
    from True Cons.prems(2) have i0: "i0 < length ?xs" and l: "Suc i0 + ?l \<le> length ?xs"
      by simp_all
    have st: "store ?xs (int i0) (g it) = Some (?xs[i0 := g it])"
      using i0 by (simp add: store_def)
    have IH: "for_loop items
           (\<lambda>it (sub, index).
              if cond it then do {
                v \<leftarrow> val it;
                comps \<leftarrow> store (components sub) index v;
                Some (sub\<lparr>components := comps\<rparr>, index + 1) }
              else Some (sub, index))
           (?sub1, int (Suc i0))
         = Some (?sub1\<lparr>components := take (Suc i0) (components ?sub1) @ map g (filter cond items)
                     @ drop (Suc i0 + ?l) (components ?sub1)\<rparr>,
                 int (Suc i0 + ?l))"
      by (rule Cons.IH) (use Cons.prems(1) l in simp_all)
    have tk: "take (Suc i0) (?xs[i0 := g it]) = take i0 ?xs @ [g it]"
      using i0 by (simp add: take_Suc_conv_app_nth)
    have dr: "drop (Suc i0 + ?l) (?xs[i0 := g it]) = drop (Suc i0 + ?l) ?xs"
      by simp
    have "val it = Some (g it)"
      using Cons.prems(1) True by simp
    then show ?thesis
      using True st IH by (simp add: tk dr add.commute [of 1])
  qed
qed

lemma filter_product:
  "filter (\<lambda>(x, y). P x \<and> Q y) (List.product xs ys) = List.product (filter P xs) (filter Q ys)"
proof (induction xs)
  case Nil
  show ?case by simp
next
  case (Cons x xs)
  have "filter (\<lambda>(x, y). P x \<and> Q y) (map (Pair x) ys) = (if P x then map (Pair x) (filter Q ys) else [])"
    by (induction ys) simp_all
  with Cons show ?case by simp
qed

lemma length_filter_neq_upt:
  assumes "x < n"
  shows "length (filter (\<lambda>y. x \<noteq> y) [0..<n]) = n - 1"
proof -
  have "length (filter (\<lambda>y. x \<noteq> y) [0..<n]) = card ({y. x \<noteq> y} \<inter> set [0..<n])"
    by (rule distinct_length_filter) simp
  also have "{y. x \<noteq> y} \<inter> set [0..<n] = {0..<n} - {x}"
    by auto
  also have "card \<dots> = n - 1"
    using assms by simp
  finally show ?thesis .
qed

text \<open>
  The sub-matrix in the words of the specification: the cells of the matrix whose row
  differs from \<open>row\<close> and whose column differs from \<open>col\<close>, in the order in which the
  two nested loops over \<open>r\<close> and \<open>c\<close> meet them, as the flat buffer of an
  \<open>(n - 1) \<times> (n - 1)\<close> matrix.
\<close>

definition sub_matrix_spec :: "Tensor \<Rightarrow> nat \<Rightarrow> nat \<Rightarrow> nat \<Rightarrow> Tensor" where
  "sub_matrix_spec m n row col =
     \<lparr>shape = [int (n - 1), int (n - 1)],
      components = map (\<lambda>(r, c). components m ! (r + c * n))
                     (filter (\<lambda>(r, c). row \<noteq> r \<and> col \<noteq> c) (List.product [0..<n] [0..<n])),
      rank = 2\<rparr>"

lemma sub_matrix_spec_is_matrix:
  assumes "row < n" and "col < n"
  shows "is_matrix (sub_matrix_spec m n row col) (n - 1) (n - 1)"
  using assms
  by (simp add: is_matrix_def sub_matrix_spec_def filter_product length_filter_neq_upt)

lemma minor_eq:
  assumes "is_matrix m n n" and "row < n" and "col < n"
  shows "minor m row col = determinant (sub_matrix_spec m n row col)"
proof -
  let ?Z = "\<lparr>shape = [int (n - 1), int (n - 1)], components = replicate ((n - 1) * (n - 1)) (0::real),
             rank = 2\<rparr>"
  let ?items = "List.product [0..<n] [0..<n]"
  let ?cond = "\<lambda>(r, c). row \<noteq> r \<and> col \<noteq> c"
  let ?val = "\<lambda>(r, c). get_value m [int r, int c]"
  let ?g = "\<lambda>(r, c). components m ! (r + c * n)"
  have len: "length (filter ?cond ?items) = (n - 1) * (n - 1)"
    using assms(2,3) by (simp add: filter_product length_filter_neq_upt)
  have body: "(\<lambda>(r, c) (sub, index).
              if row \<noteq> r \<and> col \<noteq> c then do {
                v \<leftarrow> get_value m [int r, int c];
                comps \<leftarrow> store (components sub) index v;
                Some (sub\<lparr>components := comps\<rparr>, index + 1) }
              else Some (sub, index))
         = (\<lambda>it (sub :: Tensor, index).
              if ?cond it then do {
                v \<leftarrow> ?val it;
                comps \<leftarrow> store (components sub) index v;
                Some (sub\<lparr>components := comps\<rparr>, index + 1) }
              else Some (sub, index))"
    by (auto simp: fun_eq_iff)
  have "for_loop ?items
           (\<lambda>it (sub, index).
              if ?cond it then do {
                v \<leftarrow> ?val it;
                comps \<leftarrow> store (components sub) index v;
                Some (sub\<lparr>components := comps\<rparr>, index + 1) }
              else Some (sub, index))
           (?Z, int 0)
         = Some (?Z\<lparr>components := take 0 (components ?Z) @ map ?g (filter ?cond ?items)
                     @ drop (0 + length (filter ?cond ?items)) (components ?Z)\<rparr>,
                 int (0 + length (filter ?cond ?items)))"
  proof (rule copy_loop)
    fix it assume "it \<in> set ?items"
    then show "?val it = Some (?g it)"
      by (auto simp: get_value_matrix [OF assms(1)])
  next
    show "0 + length (filter ?cond ?items) \<le> length (components ?Z)"
      by (simp add: len)
  qed
  then have loop: "for_loop ?items
           (\<lambda>(r, c) (sub, index).
              if row \<noteq> r \<and> col \<noteq> c then do {
                v \<leftarrow> get_value m [int r, int c];
                comps \<leftarrow> store (components sub) index v;
                Some (sub\<lparr>components := comps\<rparr>, index + 1) }
              else Some (sub, index))
           (?Z, 0) = Some (sub_matrix_spec m n row col, int ((n - 1) * (n - 1)))"
    by (simp add: body len sub_matrix_spec_def)
  have n: "int n - 1 = int (n - 1)"
    using assms(2) by simp
  show ?thesis
    by (subst minor.simps)
      (simp only: shape_at_matrix [OF assms(1)] n create_matrix_nat for_loop_product loop
        Option.bind.simps prod.case nat_int)
qed

lemma cofactor_eq:
  "cofactor m row col = map_option (\<lambda>x. (- 1) ^ (row + col) * x) (minor m row col)"
  by (cases "minor m row col") (simp_all add: cofactor.simps)

lemma determinant_2x2:
  assumes "is_matrix m 2 2"
  shows "determinant m = Some (components m ! 0 * components m ! 3 - components m ! 1 * components m ! 2)"
proof -
  have g: "get_value m [0, 0] = Some (components m ! 0)" "get_value m [1, 1] = Some (components m ! 3)"
    "get_value m [1, 0] = Some (components m ! 1)" "get_value m [0, 1] = Some (components m ! 2)"
    using get_value_matrix [OF assms, of 0 0] get_value_matrix [OF assms, of 1 1]
      get_value_matrix [OF assms, of 1 0] get_value_matrix [OF assms, of 0 1]
    by (simp_all add: numeral_3_eq_3 numeral_2_eq_2)
  show ?thesis
    by (subst determinant.simps) (simp add: shape_at_matrix [OF assms] g)
qed

lemma determinant_expand:
  assumes "is_matrix m n n" and "n \<noteq> 2"
    and "\<And>r. r < n \<Longrightarrow> cofactor m r 0 = Some (cof r)"
  shows "determinant m = Some (\<Sum>r<n. components m ! r * cof r)"
proof -
  have "for_loop [0..<n]
       (\<lambda>r result. do {
           cof \<leftarrow> cofactor m r 0;
           v \<leftarrow> get_value m [int r, 0];
           Some (result + v * cof) })
       0 = Some (0 + sum_list (map (\<lambda>r. components m ! r * cof r) [0..<n]))"
  proof (rule for_loop_accumulate)
    fix r a assume "r \<in> set [0..<n]"
    then have r: "r < n" by simp
    then have "get_value m [int r, int 0] = Some (components m ! (r + 0 * n))"
      by (intro get_value_matrix [OF assms(1)]) simp_all
    then show "do {
           cof \<leftarrow> cofactor m r 0;
           v \<leftarrow> get_value m [int r, 0];
           Some (a + v * cof) } = Some (a + components m ! r * cof r)"
      by (simp add: assms(3) [OF r])
  qed
  then have loop: "for_loop [0..<n]
       (\<lambda>r result. do {
           cof \<leftarrow> cofactor m r 0;
           v \<leftarrow> get_value m [int r, 0];
           Some (result + v * cof) })
       0 = Some (\<Sum>r<n. components m ! r * cof r)"
    by (simp add: interv_sum_list_conv_sum_set_nat atLeast0LessThan)
  show ?thesis
    using assms(2) by (subst determinant.simps) (simp add: shape_at_matrix [OF assms(1)] loop)
qed

lemma determinant_total:
  assumes "is_matrix m n n"
  shows "\<exists>d. determinant m = Some d"
  using assms
proof (induction n arbitrary: m)
  case 0
  then show ?case
    using determinant_expand [of m 0 "\<lambda>_. 0"] by simp
next
  case (Suc n)
  show ?case
  proof (cases "Suc n = 2")
    case True
    with Suc.prems show ?thesis
      using determinant_2x2 [of m] by simp
  next
    case False
    have "\<exists>d. minor m r 0 = Some d" if "r < Suc n" for r
    proof -
      have "is_matrix (sub_matrix_spec m (Suc n) r 0) n n"
        using sub_matrix_spec_is_matrix [of r "Suc n" 0 m] that by simp
      then have "\<exists>d. determinant (sub_matrix_spec m (Suc n) r 0) = Some d"
        by (rule Suc.IH)
      then show ?thesis
        using minor_eq [OF Suc.prems that] by simp
    qed
    then have "\<And>r. r < Suc n \<Longrightarrow> cofactor m r 0 = Some ((- 1) ^ (r + 0) * the (minor m r 0))"
      by (auto simp: cofactor_eq)
    with Suc.prems False
    have "determinant m
            = Some (\<Sum>r<Suc n. components m ! r * ((- 1) ^ (r + 0) * the (minor m r 0)))"
      by (rule determinant_expand)
    then show ?thesis ..
  qed
qed

lemma minor_total:
  assumes "is_matrix m n n" and "row < n" and "col < n"
  shows "\<exists>d. minor m row col = Some d"
proof -
  have "is_matrix (sub_matrix_spec m n row col) (n - 1) (n - 1)"
    using assms(2,3) by (rule sub_matrix_spec_is_matrix)
  then show ?thesis
    using determinant_total minor_eq [OF assms] by simp
qed

text \<open>Facts for evaluating the functions on small literal matrices.\<close>

lemma upt_0_2: "[0..<2] = [0, 1]"
  by (simp add: numeral_2_eq_2)

lemma upt_0_3: "[0..<3] = [0, 1, 2]"
  by (simp add: numeral_3_eq_3)

lemma replicate_4: "replicate 4 x = [x, x, x, x]"
  by (simp add: eval_nat_numeral)

lemma set_value_matrix_eval:
  assumes "rank t = 2" and "shape t = [a, b]"
  shows "set_value t v [i, j] = map_option (\<lambda>c. t\<lparr>components := c\<rparr>) (store (components t) (i + j * a) v)"
  using assms by (cases "store (components t) (i + j * a) v") (simp_all add: set_value_def flat_index_matrix)

lemma get_value_matrix_eval:
  assumes "rank t = 2" and "shape t = [a, b]"
  shows "get_value t [i, j] = load (components t) (i + j * a)"
  using assms by (simp_all add: get_value_def flat_index_matrix)

section \<open>Determinants of degenerate and non-square matrices\<close>

lemma determinant_non_square:
  assumes "shape_at m 0 = Some a" and "shape_at m 1 = Some b" and "a \<noteq> b"
  shows "determinant m = Some 0"
  using assms by (subst determinant.simps) simp

text \<open>
  C6. For a matrix whose \<^verbatim>\<open>shape[0]\<close> differs from \<^verbatim>\<open>shape[1]\<close>, \<^verbatim>\<open>determinant\<close> returns
  \<open>0.0\<close>. The same value is the determinant of a square matrix, here of the singular
  \<open>2 \<times> 2\<close> matrix with buffer \<open>[1, 2, 2, 4]\<close>, so the result does not tell the two
  cases apart.
\<close>

theorem C6_non_square_sentinel:
  assumes "shape_at m 0 = Some a" and "shape_at m 1 = Some b" and "a \<noteq> b"
  shows "determinant m = Some 0 \<and>
         determinant m = determinant \<lparr>shape = [2, 2], components = [1, 2, 2, 4], rank = 2\<rparr>"
proof -
  have "is_matrix \<lparr>shape = [2, 2], components = [1, 2, 2, 4], rank = 2\<rparr> 2 2"
    by (simp add: is_matrix_def)
  then have "determinant \<lparr>shape = [2, 2], components = [1, 2, 2, 4], rank = 2\<rparr> = Some 0"
    by (simp add: determinant_2x2 numeral_3_eq_3 numeral_2_eq_2)
  with determinant_non_square [OF assms] show ?thesis by simp
qed

theorem C6_non_square_sentinel_witness:
  "shape_at \<lparr>shape = [2, 3], components = [1, 2, 3, 4, 5, 6], rank = 2\<rparr> 0 = Some 2 \<and>
   shape_at \<lparr>shape = [2, 3], components = [1, 2, 3, 4, 5, 6], rank = 2\<rparr> 1 = Some 3 \<and>
   determinant \<lparr>shape = [2, 3], components = [1, 2, 3, 4, 5, 6], rank = 2\<rparr> = Some 0"
proof -
  let ?m = "\<lparr>shape = [2, 3], components = [1, 2, 3, 4, 5, 6], rank = 2\<rparr>"
  have s: "shape_at ?m 0 = Some 2" "shape_at ?m 1 = Some 3"
    by (simp_all add: shape_at_def)
  have "(2::int) \<noteq> 3" by simp
  from C6_non_square_sentinel [OF s this] s show ?thesis by simp
qed

lemma sub_matrix_spec_1x1:
  "sub_matrix_spec m (Suc 0) 0 0 = \<lparr>shape = [0, 0], components = [], rank = 2\<rparr>"
  by (simp add: sub_matrix_spec_def)

lemma determinant_0x0:
  assumes "is_matrix e 0 0"
  shows "determinant e = Some 0"
  using determinant_expand [OF assms, of "\<lambda>_. 0"] by simp

lemma minor_1x1:
  assumes "is_matrix m 1 1"
  shows "minor m 0 0 = Some 0"
proof -
  have "is_matrix \<lparr>shape = [0, 0], components = [], rank = 2\<rparr> 0 0"
    by (simp add: is_matrix_def)
  then show ?thesis
    using minor_eq [OF assms, of 0 0] by (simp add: sub_matrix_spec_1x1 determinant_0x0)
qed

lemma determinant_1x1:
  assumes "is_matrix m 1 1"
  shows "determinant m = Some 0"
proof -
  have "cofactor m r 0 = Some 0" if "r < 1" for r
    using that by (simp add: cofactor_eq minor_1x1 [OF assms])
  with assms have "determinant m = Some (\<Sum>r<1. components m ! r * 0)"
    by (intro determinant_expand) simp_all
  then show ?thesis by simp
qed

text \<open>
  C9. For every \<open>1 \<times> 1\<close> matrix \<^verbatim>\<open>determinant\<close> returns \<open>0.0\<close>, whatever its single entry,
  and for a \<open>0 \<times> 0\<close> matrix as well: there is no base case for size 1, the loop runs
  once, its cofactor is the minor, the minor is the determinant of the empty \<open>0 \<times> 0\<close>
  sub-matrix, and for that matrix the loop of the recursive branch runs zero times.
\<close>

theorem C9_one_by_one_is_zero:
  assumes "is_matrix m 1 1" and "is_matrix e 0 0"
  shows "determinant m = Some 0 \<and> determinant e = Some 0 \<and>
         cofactor m 0 0 = minor m 0 0 \<and>
         minor m 0 0 = determinant \<lparr>shape = [0, 0], components = [], rank = 2\<rparr> \<and>
         determinant \<lparr>shape = [0, 0], components = [], rank = 2\<rparr> = Some 0"
proof -
  have z: "is_matrix \<lparr>shape = [0, 0], components = [], rank = 2\<rparr> 0 0"
    by (simp add: is_matrix_def)
  have "minor m 0 0 = determinant \<lparr>shape = [0, 0], components = [], rank = 2\<rparr>"
    using minor_eq [OF assms(1), of 0 0] by (simp add: sub_matrix_spec_1x1)
  moreover have "cofactor m 0 0 = minor m 0 0"
    by (simp add: cofactor_eq minor_1x1 [OF assms(1)])
  ultimately show ?thesis
    using determinant_1x1 [OF assms(1)] determinant_0x0 [OF assms(2)] determinant_0x0 [OF z]
    by simp
qed

theorem C9_one_by_one_is_zero_witness:
  "is_matrix \<lparr>shape = [1, 1], components = [7], rank = 2\<rparr> 1 1 \<and>
   is_matrix \<lparr>shape = [0, 0], components = [], rank = 2\<rparr> 0 0 \<and>
   determinant \<lparr>shape = [1, 1], components = [7], rank = 2\<rparr> = Some 0 \<and>
   determinant \<lparr>shape = [0, 0], components = [], rank = 2\<rparr> = Some 0"
proof -
  have 1: "is_matrix \<lparr>shape = [1, 1], components = [7], rank = 2\<rparr> 1 1"
    by (simp add: is_matrix_def)
  have 0: "is_matrix \<lparr>shape = [0, 0], components = [], rank = 2\<rparr> 0 0"
    by (simp add: is_matrix_def)
  from C9_one_by_one_is_zero [OF 1 0] 1 0 show ?thesis by simp
qed

text \<open>
  C4. The claim is that \<^verbatim>\<open>determinant(create_indentity(n))\<close> is \<open>1.0\<close> for every \<open>n \<ge> 1\<close>.
  At \<open>n = 1\<close> the code builds the matrix with the single entry \<open>1.0\<close> and returns the
  determinant \<open>0.0\<close> for it.
\<close>

theorem C4_identity_of_size_one:
  "create_indentity 1 = Some \<lparr>shape = [1, 1], components = [1], rank = 2\<rparr> \<and>
   determinant \<lparr>shape = [1, 1], components = [1], rank = 2\<rparr> = Some 0"
proof -
  have "is_matrix \<lparr>shape = [1, 1], components = [1], rank = 2\<rparr> 1 1"
    by (simp add: is_matrix_def)
  then have "determinant \<lparr>shape = [1, 1], components = [1], rank = 2\<rparr> = Some 0"
    by (rule determinant_1x1)
  moreover have "create_indentity 1 = Some \<lparr>shape = [1, 1], components = [1], rank = 2\<rparr>"
    by (simp add: create_indentity_def create_matrix_eq set_value_matrix_eval store_def)
  ultimately show ?thesis by simp
qed

text \<open>
  From size 2 on the determinant of the identity is 1: deleting row 0 and column 0 of the
  identity of size \<open>n + 1\<close> leaves the identity of size \<open>n\<close>, and the other terms of the
  expansion are multiplied by the zeros of column 0.
\<close>

lemma filter_pos_upt: "filter ((<) 0) [0..<n] = [Suc 0..<n]"
proof (cases n)
  case 0
  then show ?thesis by simp
next
  case (Suc k)
  have "filter ((<) 0) [Suc 0..<Suc k] = [Suc 0..<Suc k]"
    by (rule filter_True) auto
  then show ?thesis
    by (simp add: Suc upt_rec [of 0])
qed

lemma identity_cells:
  assumes "create_indentity n = Some I"
  shows "is_matrix I n n"
    and "\<And>i j. i < n \<Longrightarrow> j < n \<Longrightarrow> components I ! (i + j * n) = (if i = j then 1 else 0)"
  using create_indentity_eq [of n] assms by auto

lemma sub_matrix_of_identity:
  assumes "create_indentity (Suc n) = Some I" and "create_indentity n = Some I'"
  shows "sub_matrix_spec I (Suc n) 0 0 = I'"
proof (rule matrix_eqI)
  show "is_matrix (sub_matrix_spec I (Suc n) 0 0) n n"
    using sub_matrix_spec_is_matrix [of 0 "Suc n" 0 I] by simp
  show "is_matrix I' n n"
    using assms(2) by (rule identity_cells)
next
  fix i j assume ij: "i < n" "j < n"
  let ?x = "i + j * n"
  have x: "?x < n * n" using ij by (rule cell_in_range)
  have dm: "?x div n = j" "?x mod n = i" using ij by simp_all
  have "components (sub_matrix_spec I (Suc n) 0 0) ! ?x
          = (\<lambda>(r, c). components I ! (r + c * Suc n)) (List.product [1..<Suc n] [1..<Suc n] ! ?x)"
    using x by (simp add: sub_matrix_spec_def filter_product filter_pos_upt del: upt_Suc)
  also have "List.product [1..<Suc n] [1..<Suc n] ! ?x = (Suc j, Suc i)"
    using x ij by (subst List.product_nth) (simp_all add: dm del: upt_Suc)
  also have "(\<lambda>(r, c). components I ! (r + c * Suc n)) (Suc j, Suc i) = (if Suc j = Suc i then 1 else 0)"
    using identity_cells(2) [OF assms(1), of "Suc j" "Suc i"] ij by simp
  also have "\<dots> = components I' ! ?x"
    using identity_cells(2) [OF assms(2) ij] by auto
  finally show "components (sub_matrix_spec I (Suc n) 0 0) ! ?x = components I' ! ?x" .
qed

lemma determinant_identity:
  assumes "2 \<le> n" and "create_indentity n = Some I"
  shows "determinant I = Some 1"
  using assms
proof (induction n arbitrary: I rule: nat_induct_at_least)
  case base
  then have I: "is_matrix I 2 2"
    and c: "\<And>i j. i < 2 \<Longrightarrow> j < 2 \<Longrightarrow> components I ! (i + j * 2) = (if i = j then 1 else 0)"
    using identity_cells [of 2 I] by auto
  from c [of 0 0] c [of 1 1] c [of 1 0] c [of 0 1]
  have "components I ! 0 = 1" "components I ! 3 = 1" "components I ! 1 = 0" "components I ! 2 = 0"
    by (simp_all add: numeral_3_eq_3 numeral_2_eq_2)
  then show ?case
    by (simp add: determinant_2x2 [OF I])
next
  case (Suc n)
  note I = identity_cells [OF Suc.prems]
  obtain I' where I': "create_indentity n = Some I'"
    using create_indentity_eq [of n] by blast
  then have IH: "determinant I' = Some 1"
    by (rule Suc.IH)
  have min0: "minor I 0 0 = Some 1"
    using minor_eq [OF I(1), of 0 0] sub_matrix_of_identity [OF Suc.prems I'] IH by simp
  have cof: "cofactor I r 0 = Some ((- 1) ^ (r + 0) * the (minor I r 0))" if "r < Suc n" for r
    using minor_total [OF I(1) that, of 0] by (auto simp: cofactor_eq)
  have "determinant I = Some (\<Sum>r<Suc n. components I ! r * ((- 1) ^ (r + 0) * the (minor I r 0)))"
    using I(1) _ cof by (rule determinant_expand) (use Suc.hyps in simp)
  also have "(\<Sum>r<Suc n. components I ! r * ((- 1) ^ (r + 0) * the (minor I r 0)))
               = (\<Sum>r<Suc n. if r = 0 then 1 else 0)"
  proof (rule sum.cong)
    fix r assume "r \<in> {..<Suc n}"
    then have "components I ! (r + 0 * Suc n) = (if r = 0 then 1 else 0)"
      by (intro I(2)) simp_all
    then show "components I ! r * ((- 1) ^ (r + 0) * the (minor I r 0)) = (if r = 0 then 1 else 0)"
      by (simp add: min0)
  qed simp
  also have "\<dots> = 1"
    by simp
  finally show ?case .
qed

section \<open>The determinant as a cofactor expansion\<close>

text \<open>
  C5. For a square matrix of size 2, \<^verbatim>\<open>determinant\<close> returns
  \<open>get(0,0) * get(1,1) - get(1,0) * get(0,1)\<close>. For a square matrix of size \<open>n > 2\<close> it
  returns the Laplace expansion along column 0, the sum over the rows \<open>r\<close> of
  \<open>get_value(matrix, r, 0) * cofactor(matrix, r, 0)\<close>. For all in-range \<open>r\<close> and \<open>c\<close>,
  \<open>cofactor(matrix, r, c)\<close> is \<open>(-1)^(r+c) * minor(matrix, r, c)\<close>, and the minor is the
  determinant of the sub-matrix that keeps the cells off row \<open>r\<close> and off column \<open>c\<close> in
  the order of the traversal (\<open>sub_matrix_spec\<close>). Every one of these calls returns a value.
\<close>

theorem C5_determinant_by_cofactors:
  assumes "is_matrix m n n"
  shows "(n = 2 \<longrightarrow>
            (\<exists>a b c d. get_value m [0, 0] = Some a \<and> get_value m [0, 1] = Some b \<and>
               get_value m [1, 0] = Some c \<and> get_value m [1, 1] = Some d \<and>
               determinant m = Some (a * d - c * b))) \<and>
         (2 < n \<longrightarrow>
            (\<exists>g cof. (\<forall>r<n. get_value m [int r, 0] = Some (g r) \<and> cofactor m r 0 = Some (cof r)) \<and>
               determinant m = Some (\<Sum>r<n. g r * cof r))) \<and>
         (\<forall>r<n. \<forall>c<n. \<exists>d. minor m r c = Some d \<and> cofactor m r c = Some ((- 1) ^ (r + c) * d) \<and>
               determinant (sub_matrix_spec m n r c) = Some d)"
proof (intro conjI impI allI)
  assume n: "n = 2"
  with assms have m: "is_matrix m 2 2" by simp
  have "get_value m [0, 0] = Some (components m ! 0)" "get_value m [0, 1] = Some (components m ! 2)"
    "get_value m [1, 0] = Some (components m ! 1)" "get_value m [1, 1] = Some (components m ! 3)"
    using get_value_matrix [OF m, of 0 0] get_value_matrix [OF m, of 0 1]
      get_value_matrix [OF m, of 1 0] get_value_matrix [OF m, of 1 1]
    by (simp_all add: numeral_3_eq_3 numeral_2_eq_2)
  with determinant_2x2 [OF m]
  show "\<exists>a b c d. get_value m [0, 0] = Some a \<and> get_value m [0, 1] = Some b \<and>
               get_value m [1, 0] = Some c \<and> get_value m [1, 1] = Some d \<and>
               determinant m = Some (a * d - c * b)"
    by simp
next
  assume n: "2 < n"
  let ?g = "\<lambda>r. components m ! r"
  let ?cof = "\<lambda>r. (- 1) ^ (r + 0) * the (minor m r 0)"
  have cof: "cofactor m r 0 = Some (?cof r)" if "r < n" for r
  proof -
    from n have "0 < n" by simp
    with assms that obtain d where "minor m r 0 = Some d"
      using minor_total by blast
    then show ?thesis by (simp add: cofactor_eq)
  qed
  have get: "get_value m [int r, 0] = Some (?g r)" if "r < n" for r
    using get_value_matrix [OF assms that, of 0] n by simp
  have "determinant m = Some (\<Sum>r<n. ?g r * ?cof r)"
    using assms _ cof by (rule determinant_expand) (use n in simp)
  with cof get
  have "(\<forall>r<n. get_value m [int r, 0] = Some (?g r) \<and> cofactor m r 0 = Some (?cof r)) \<and>
               determinant m = Some (\<Sum>r<n. ?g r * ?cof r)"
    by simp
  then have "\<exists>cof. (\<forall>r<n. get_value m [int r, 0] = Some (?g r) \<and> cofactor m r 0 = Some (cof r)) \<and>
               determinant m = Some (\<Sum>r<n. ?g r * cof r)"
    by (rule exI [where x = ?cof])
  then show "\<exists>g cof. (\<forall>r<n. get_value m [int r, 0] = Some (g r) \<and> cofactor m r 0 = Some (cof r)) \<and>
               determinant m = Some (\<Sum>r<n. g r * cof r)"
    by (rule exI [where x = ?g])
next
  fix r c assume rc: "r < n" "c < n"
  with assms obtain d where d: "minor m r c = Some d"
    using minor_total by blast
  with minor_eq [OF assms rc]
  have "minor m r c = Some d \<and> cofactor m r c = Some ((- 1) ^ (r + c) * d) \<and>
               determinant (sub_matrix_spec m n r c) = Some d"
    by (simp add: cofactor_eq)
  then show "\<exists>d. minor m r c = Some d \<and> cofactor m r c = Some ((- 1) ^ (r + c) * d) \<and>
               determinant (sub_matrix_spec m n r c) = Some d" ..
qed

theorem C5_determinant_by_cofactors_witness:
  "is_matrix \<lparr>shape = [2, 2], components = [1, 2, 3, 4], rank = 2\<rparr> 2 2 \<and>
   determinant \<lparr>shape = [2, 2], components = [1, 2, 3, 4], rank = 2\<rparr> = Some (1 * 4 - 2 * 3) \<and>
   is_matrix \<lparr>shape = [3, 3], components = [1, 2, 3, 4, 5, 6, 7, 8, 10], rank = 2\<rparr> 3 3 \<and>
   sub_matrix_spec \<lparr>shape = [3, 3], components = [1, 2, 3, 4, 5, 6, 7, 8, 10], rank = 2\<rparr> 3 1 0
     = \<lparr>shape = [2, 2], components = [4, 7, 6, 10], rank = 2\<rparr> \<and>
   minor \<lparr>shape = [3, 3], components = [1, 2, 3, 4, 5, 6, 7, 8, 10], rank = 2\<rparr> 1 0 = Some (- 2) \<and>
   cofactor \<lparr>shape = [3, 3], components = [1, 2, 3, 4, 5, 6, 7, 8, 10], rank = 2\<rparr> 1 0 = Some 2 \<and>
   determinant \<lparr>shape = [3, 3], components = [1, 2, 3, 4, 5, 6, 7, 8, 10], rank = 2\<rparr>
     = Some (1 * 2 + 2 * 2 + 3 * (- 3))"
proof -
  let ?M2 = "\<lparr>shape = [2, 2], components = [1, 2, 3, 4 :: real], rank = 2\<rparr>"
  let ?M3 = "\<lparr>shape = [3, 3], components = [1, 2, 3, 4, 5, 6, 7, 8, 10 :: real], rank = 2\<rparr>"
  have M2: "is_matrix ?M2 2 2" and M3: "is_matrix ?M3 3 3"
    by (simp_all add: is_matrix_def)
  have get2: "get_value ?M2 [0, 0] = Some 1" "get_value ?M2 [0, 1] = Some 3"
    "get_value ?M2 [1, 0] = Some 2" "get_value ?M2 [1, 1] = Some 4"
    by (simp_all add: get_value_matrix_eval load_def)
  have det2: "determinant ?M2 = Some (1 * 4 - 2 * 3)"
    using C5_determinant_by_cofactors [OF M2] get2 by auto
  have sub: "sub_matrix_spec ?M3 3 0 0 = \<lparr>shape = [2, 2], components = [5, 8, 6, 10], rank = 2\<rparr>"
    "sub_matrix_spec ?M3 3 1 0 = \<lparr>shape = [2, 2], components = [4, 7, 6, 10], rank = 2\<rparr>"
    "sub_matrix_spec ?M3 3 2 0 = \<lparr>shape = [2, 2], components = [4, 7, 5, 8], rank = 2\<rparr>"
    by (simp_all add: sub_matrix_spec_def upt_0_3)
  have sub_det: "determinant \<lparr>shape = [2, 2], components = [5, 8, 6, 10], rank = 2\<rparr> = Some 2"
    "determinant \<lparr>shape = [2, 2], components = [4, 7, 6, 10], rank = 2\<rparr> = Some (- 2)"
    "determinant \<lparr>shape = [2, 2], components = [4, 7, 5, 8], rank = 2\<rparr> = Some (- 3)"
    by (simp_all add: determinant_2x2 is_matrix_def numeral_3_eq_3 numeral_2_eq_2)
  note T = C5_determinant_by_cofactors [OF M3]
  from T have "\<forall>r<3. \<forall>c<3. \<exists>d. minor ?M3 r c = Some d \<and>
               cofactor ?M3 r c = Some ((- 1) ^ (r + c) * d) \<and>
               determinant (sub_matrix_spec ?M3 3 r c) = Some d"
    by (elim conjE)
  from this [rule_format, of _ 0]
  have mc: "\<exists>d. minor ?M3 r 0 = Some d \<and> cofactor ?M3 r 0 = Some ((- 1) ^ (r + 0) * d) \<and>
               determinant (sub_matrix_spec ?M3 3 r 0) = Some d" if "r < 3" for r
    using that by simp
  have c0: "minor ?M3 0 0 = Some 2" "cofactor ?M3 0 0 = Some 2"
    using mc [of 0] unfolding sub sub_det by auto
  have c1: "minor ?M3 1 0 = Some (- 2)" "cofactor ?M3 1 0 = Some 2"
    using mc [of 1] unfolding sub sub_det by auto
  have c2: "minor ?M3 2 0 = Some (- 3)" "cofactor ?M3 2 0 = Some (- 3)"
    using mc [of 2] unfolding sub sub_det by auto
  have get3: "get_value ?M3 [int 0, 0] = Some 1" "get_value ?M3 [int 1, 0] = Some 2"
    "get_value ?M3 [int 2, 0] = Some 3"
    by (simp_all add: get_value_matrix_eval load_def)
  from T obtain g cof where gc: "\<forall>r<3. get_value ?M3 [int r, 0] = Some (g r) \<and> cofactor ?M3 r 0 = Some (cof r)"
    and det: "determinant ?M3 = Some (\<Sum>r<3. g r * cof r)"
    by auto
  from gc [rule_format, of 0] gc [rule_format, of 1] gc [rule_format, of 2] get3 c0 c1 c2
  have "g 0 = 1" "g 1 = 2" "g 2 = 3" "cof 0 = 2" "cof 1 = 2" "cof 2 = - 3"
    by simp_all
  moreover have "{..<3::nat} = {0, 1, 2}"
    by auto
  then have "(\<Sum>r<3. g r * cof r) = g 0 * cof 0 + g 1 * cof 1 + g 2 * cof 2"
    by simp
  ultimately have det3: "determinant ?M3 = Some (1 * 2 + 2 * 2 + 3 * (- 3))"
    using det by simp
  show ?thesis
    using M2 M3 det2 det3 sub(2) c1 by simp
qed

section \<open>Matrix product\<close>

text \<open>
  C10. For every \<open>n \<times> n\<close> matrix \<open>M\<close>, both \<^verbatim>\<open>matmul(M, create_indentity(n))\<close> and
  \<^verbatim>\<open>matmul(create_indentity(n), M)\<close> return the matrix that \<^verbatim>\<open>transpose(M)\<close> returns; that
  matrix is \<open>M\<close> itself only when \<open>M\<close> is symmetric.
\<close>

theorem C10_identity_acts_as_transposition:
  assumes "is_matrix M n n"
  shows "\<exists>I T. create_indentity n = Some I \<and> transpose_mat M = Some T \<and>
           matmul M I = Some T \<and> matmul I M = Some T \<and>
           (T = M \<longleftrightarrow> (\<forall>i<n. \<forall>j<n. components M ! (i + j * n) = components M ! (j + i * n)))"
proof -
  obtain I where I: "create_indentity n = Some I" "is_matrix I n n"
    "\<forall>i<n. \<forall>j<n. components I ! (i + j * n) = (if i = j then 1 else 0)"
    using create_indentity_eq by blast
  obtain T where T: "transpose_mat M = Some T" "is_matrix T n n"
    "\<forall>r<n. \<forall>c<n. components T ! (c + r * n) = components M ! (r + c * n)"
    using transpose_mat_eq [OF assms] by blast
  obtain X where X: "matmul M I = Some X" "is_matrix X n n"
    "\<forall>r<n. \<forall>c<n. components X ! (r + c * n)
               = (\<Sum>k<n. components I ! (k + r * n) * components M ! (c + k * n))"
    using matmul_eq [OF assms I(2)] by blast
  obtain Y where Y: "matmul I M = Some Y" "is_matrix Y n n"
    "\<forall>r<n. \<forall>c<n. components Y ! (r + c * n)
               = (\<Sum>k<n. components M ! (k + r * n) * components I ! (c + k * n))"
    using matmul_eq [OF I(2) assms] by blast
  have "X = T"
  proof (rule matrix_eqI [OF X(2) T(2)])
    fix r c assume rc: "r < n" "c < n"
    have "components X ! (r + c * n)
            = (\<Sum>k<n. components I ! (k + r * n) * components M ! (c + k * n))"
      using X(3) rc by simp
    also have "\<dots> = (\<Sum>k<n. if k = r then components M ! (c + k * n) else 0)"
      using I(3) rc by (intro sum.cong) auto
    also have "\<dots> = components M ! (c + r * n)"
      using rc by simp
    also have "\<dots> = components T ! (r + c * n)"
      using T(3) rc by simp
    finally show "components X ! (r + c * n) = components T ! (r + c * n)" .
  qed
  moreover have "Y = T"
  proof (rule matrix_eqI [OF Y(2) T(2)])
    fix r c assume rc: "r < n" "c < n"
    have "components Y ! (r + c * n)
            = (\<Sum>k<n. components M ! (k + r * n) * components I ! (c + k * n))"
      using Y(3) rc by simp
    also have "\<dots> = (\<Sum>k<n. if k = c then components M ! (k + r * n) else 0)"
      using I(3) rc by (intro sum.cong) auto
    also have "\<dots> = components M ! (c + r * n)"
      using rc by simp
    also have "\<dots> = components T ! (r + c * n)"
      using T(3) rc by simp
    finally show "components Y ! (r + c * n) = components T ! (r + c * n)" .
  qed
  moreover have "T = M \<longleftrightarrow> (\<forall>i<n. \<forall>j<n. components M ! (i + j * n) = components M ! (j + i * n))"
  proof
    assume "T = M"
    with T(3) show "\<forall>i<n. \<forall>j<n. components M ! (i + j * n) = components M ! (j + i * n)"
      by auto
  next
    assume sym: "\<forall>i<n. \<forall>j<n. components M ! (i + j * n) = components M ! (j + i * n)"
    show "T = M"
      by (rule matrix_eqI [OF T(2) assms]) (use T(3) sym in auto)
  qed
  ultimately show ?thesis
    using I(1) T(1) X(1) Y(1) by simp
qed

theorem C10_identity_acts_as_transposition_witness:
  "is_matrix \<lparr>shape = [2, 2], components = [1, 2, 3, 4], rank = 2\<rparr> 2 2 \<and>
   create_indentity 2 = Some \<lparr>shape = [2, 2], components = [1, 0, 0, 1], rank = 2\<rparr> \<and>
   transpose_mat \<lparr>shape = [2, 2], components = [1, 2, 3, 4], rank = 2\<rparr>
     = Some \<lparr>shape = [2, 2], components = [1, 3, 2, 4], rank = 2\<rparr> \<and>
   matmul \<lparr>shape = [2, 2], components = [1, 2, 3, 4], rank = 2\<rparr>
          \<lparr>shape = [2, 2], components = [1, 0, 0, 1], rank = 2\<rparr>
     = Some \<lparr>shape = [2, 2], components = [1, 3, 2, 4], rank = 2\<rparr> \<and>
   matmul \<lparr>shape = [2, 2], components = [1, 0, 0, 1], rank = 2\<rparr>
          \<lparr>shape = [2, 2], components = [1, 2, 3, 4], rank = 2\<rparr>
     = Some \<lparr>shape = [2, 2], components = [1, 3, 2, 4], rank = 2\<rparr>"
proof -
  let ?M = "\<lparr>shape = [2, 2], components = [1, 2, 3, 4 :: real], rank = 2\<rparr>"
  have M: "is_matrix ?M 2 2"
    by (simp add: is_matrix_def)
  have I: "create_indentity 2 = Some \<lparr>shape = [2, 2], components = [1, 0, 0, 1], rank = 2\<rparr>"
    by (simp add: create_indentity_def create_matrix_eq upt_0_2 replicate_4 set_value_matrix_eval
        store_def)
  have T: "transpose_mat ?M = Some \<lparr>shape = [2, 2], components = [1, 3, 2, 4], rank = 2\<rparr>"
    by (simp add: transpose_mat_def create_matrix_eq upt_0_2 replicate_4 set_value_matrix_eval
        get_value_matrix_eval store_def load_def shape_at_def)
  from C10_identity_acts_as_transposition [OF M] I T M show ?thesis
    by auto
qed

text \<open>
  When \<^verbatim>\<open>lhs.shape[0]\<close> equals \<^verbatim>\<open>rhs.shape[1]\<close>, the result has that size on both axes and
  each of its cells holds the sum of the products that the loop body names.
\<close>

lemma matmul_square_shape:
  assumes "is_matrix L m n" and "is_matrix R n m"
  shows "\<exists>X. matmul L R = Some X \<and> shape X = [int m, int m] \<and> rank X = 2 \<and>
           (\<forall>r<m. \<forall>c<m. \<exists>x. get_value X [int r, int c] = Some x \<and>
               x = (\<Sum>k<n. the (get_value R [int k, int r]) * the (get_value L [int c, int k])))"
proof -
  obtain X where X: "matmul L R = Some X" "is_matrix X m m"
    "\<forall>r<m. \<forall>c<m. components X ! (r + c * m)
               = (\<Sum>k<n. components R ! (k + r * n) * components L ! (c + k * m))"
    using matmul_eq [OF assms] by blast
  have "get_value X [int r, int c]
          = Some (\<Sum>k<n. the (get_value R [int k, int r]) * the (get_value L [int c, int k]))"
    if "r < m" "c < m" for r c
  proof -
    have "(\<Sum>k<n. components R ! (k + r * n) * components L ! (c + k * m))
            = (\<Sum>k<n. the (get_value R [int k, int r]) * the (get_value L [int c, int k]))"
      using that
      by (intro sum.cong) (simp_all add: get_value_matrix [OF assms(1)] get_value_matrix [OF assms(2)])
    with X(3) that show ?thesis
      by (simp add: get_value_matrix [OF X(2)])
  qed
  with X(1,2) show ?thesis
    by (simp add: is_matrix_def)
qed

text \<open>
  C2. The claim is that for \<^verbatim>\<open>lhs\<close> of shape \<open>[m, n]\<close> and \<^verbatim>\<open>rhs\<close> of shape \<open>[n, p]\<close> the
  result has shape \<open>[p, m]\<close> and its cell \<open>(r, c)\<close> holds the sum over \<open>k\<close> of
  \<open>get_value(rhs, k, r) * get_value(lhs, c, k)\<close>. For \<open>m = 2\<close>, \<open>n = 1\<close>, \<open>p = 1\<close> every cell
  the claim reads exists, but the loops run \<open>r\<close> up to \<^verbatim>\<open>lhs.shape[0]\<close> and \<open>c\<close> up to
  \<^verbatim>\<open>rhs.shape[1]\<close>: at \<open>r = 1\<close> the code reads \<open>get_value(rhs, 0, 1)\<close>, one cell past the
  end of the buffer of \<^verbatim>\<open>rhs\<close>, and no defined result is returned.
\<close>

theorem C2_matmul_non_square:
  "get_value \<lparr>shape = [1, 1], components = [3], rank = 2\<rparr> [0, 0] = Some 3 \<and>
   get_value \<lparr>shape = [2, 1], components = [1, 2], rank = 2\<rparr> [0, 0] = Some 1 \<and>
   get_value \<lparr>shape = [2, 1], components = [1, 2], rank = 2\<rparr> [1, 0] = Some 2 \<and>
   get_value \<lparr>shape = [1, 1], components = [3], rank = 2\<rparr> [0, 1] = None \<and>
   matmul \<lparr>shape = [2, 1], components = [1, 2], rank = 2\<rparr>
          \<lparr>shape = [1, 1], components = [3], rank = 2\<rparr> = None"
  by (simp add: matmul_def create_matrix_eq upt_0_2 set_value_matrix_eval
        get_value_matrix_eval store_def load_def shape_at_def eval_nat_numeral)

section \<open>Cross product\<close>

lemma create_vector_3:
  "create_vector 3 = Some \<lparr>shape = [3], components = [0, 0, 0], rank = 1\<rparr>"
  by (simp add: create_vector_def create_tensor_eq eval_nat_numeral)

text \<open>
  C8. For two vectors \<open>u\<close> and \<open>v\<close> of length 3, \<^verbatim>\<open>cross(u, v)\<close> is the element-wise negation
  of \<^verbatim>\<open>cross(v, u)\<close>, and its three cells are \<open>u1*v2 - u2*v1\<close>, \<open>u2*v0 - u0*v2\<close> and
  \<open>u0*v1 - u1*v0\<close>.
\<close>

theorem C8_cross_anticommutative:
  assumes "shape u = [3]" and "length (components u) = 3"
    and "shape v = [3]" and "length (components v) = 3"
  shows "\<exists>w w'. cross u v = Some w \<and> cross v u = Some w' \<and>
           components w = map uminus (components w') \<and>
           shape w = [3] \<and> rank w = 1 \<and> shape w' = [3] \<and> rank w' = 1 \<and>
           components w =
             [components u ! 1 * components v ! 2 - components u ! 2 * components v ! 1,
              components u ! 2 * components v ! 0 - components u ! 0 * components v ! 2,
              components u ! 0 * components v ! 1 - components u ! 1 * components v ! 0]"
  using assms
  by (simp add: cross_def shape_at_def create_vector_3 load_def store_def)

theorem C8_cross_anticommutative_witness:
  "cross \<lparr>shape = [3], components = [1, 2, 3], rank = 1\<rparr>
         \<lparr>shape = [3], components = [4, 5, 6], rank = 1\<rparr>
     = Some \<lparr>shape = [3], components = [- 3, 6, - 3], rank = 1\<rparr> \<and>
   cross \<lparr>shape = [3], components = [4, 5, 6], rank = 1\<rparr>
         \<lparr>shape = [3], components = [1, 2, 3], rank = 1\<rparr>
     = Some \<lparr>shape = [3], components = [3, - 6, 3], rank = 1\<rparr>"
proof -
  let ?u = "\<lparr>shape = [3], components = [1, 2, 3 :: real], rank = 1\<rparr>"
  let ?v = "\<lparr>shape = [3], components = [4, 5, 6 :: real], rank = 1\<rparr>"
  have "\<exists>w w'. cross ?u ?v = Some w \<and> cross ?v ?u = Some w' \<and>
           components w = map uminus (components w') \<and>
           shape w = [3] \<and> rank w = 1 \<and> shape w' = [3] \<and> rank w' = 1 \<and>
           components w =
             [components ?u ! 1 * components ?v ! 2 - components ?u ! 2 * components ?v ! 1,
              components ?u ! 2 * components ?v ! 0 - components ?u ! 0 * components ?v ! 2,
              components ?u ! 0 * components ?v ! 1 - components ?u ! 1 * components ?v ! 0]"
    by (rule C8_cross_anticommutative) simp_all
  then obtain w w' where w: "cross ?u ?v = Some w" "cross ?v ?u = Some w'"
    "components w = map uminus (components w')" "shape w = [3]" "rank w = 1"
    "shape w' = [3]" "rank w' = 1" "components w = [- 3, 6, - 3]"
    by auto
  from w(3,8) have "components w' = [3, - 6, 3]"
    by (cases "components w'") (auto simp: map_eq_Cons_conv)
  with w show ?thesis
    by (cases w, cases w') simp
qed

section \<open>Scaling, adjugate and inverse\<close>

lemma shape_copy_loop:
  assumes "r \<le> length (shape t)"
  shows "for_loop [0..<r]
        (\<lambda>i (len, shp). do { s \<leftarrow> shape_at t i; Some (len * s, shp[i := s]) })
        (1, replicate r 0)
      = Some (prod_list (take r (shape t)), take r (shape t))"
proof -
  let ?body = "\<lambda>i (len, shp). do { s \<leftarrow> shape_at t i; Some (len * s, shp[i := s]) }"
  let ?I = "\<lambda>k (len, shp). len = prod_list (take k (shape t))
              \<and> shp = take k (shape t) @ replicate (r - k) 0"
  have "\<exists>s'. for_loop [0..<r] ?body (1, replicate r 0) = Some s' \<and> ?I r s'"
  proof (rule for_loop_rule [where I = ?I])
    show "?I 0 (1, replicate r 0)" by simp
  next
    fix i s
    assume i: "i < r" and inv: "?I i s"
    from i assms have len: "i < length (shape t)" by simp
    have upd: "(take i (shape t) @ replicate (r - i) 0)[i := shape t ! i]
                 = take (Suc i) (shape t) @ replicate (r - Suc i) 0"
      using i len
      by (intro nth_equalityI) (auto simp: nth_list_update nth_append less_Suc_eq min_def)
    show "\<exists>s'. ?body i s = Some s' \<and> ?I (Suc i) s'"
      using inv len by (auto simp: shape_at_def upd take_Suc_conv_app_nth)
  qed
  then show ?thesis by auto
qed

lemma byptr_length_loop:
  assumes "r \<le> length shp"
  shows "for_loop [0..<r] (\<lambda>i len. do { s \<leftarrow> read_int shp i; Some (len * s) }) 1
           = Some (prod_list (take r shp))"
proof -
  let ?I = "\<lambda>k len. len = prod_list (take k shp)"
  have "\<exists>s'. for_loop [0..<r] (\<lambda>i len. do { s \<leftarrow> read_int shp i; Some (len * s) }) 1 = Some s'
           \<and> ?I r s'"
  proof (rule for_loop_rule [where I = ?I])
    show "?I 0 1" by simp
  next
    fix i s
    assume "i < r" and "?I i s"
    with assms show "\<exists>s'. do { x \<leftarrow> read_int shp i; Some (s * x) } = Some s' \<and> ?I (Suc i) s'"
      by (simp add: read_int_def take_Suc_conv_app_nth)
  qed
  then show ?thesis by simp
qed

lemma create_tensor_byptr_eq:
  assumes "r \<le> length shp"
  shows "create_tensor_byptr r shp =
     (if 0 \<le> prod_list (take r shp)
      then Some \<lparr>shape = shp, components = replicate (nat (prod_list (take r shp))) 0, rank = r\<rparr>
      else None)"
  by (simp add: create_tensor_byptr_def byptr_length_loop [OF assms] alloc_zeroed_eq)

lemma map_fill_loop:
  assumes "n \<le> length xs" and "n \<le> length ys"
  shows "for_loop [0..<n]
        (\<lambda>i comps. do { a \<leftarrow> load xs (int i); store comps (int i) (f a) }) ys
      = Some (map f (take n xs) @ drop n ys)"
proof -
  let ?body = "\<lambda>i comps. do { a \<leftarrow> load xs (int i); store comps (int i) (f a) }"
  let ?I = "\<lambda>k comps. comps = map f (take k xs) @ drop k ys"
  have "\<exists>s'. for_loop [0..<n] ?body ys = Some s' \<and> ?I n s'"
  proof (rule for_loop_rule [where I = ?I])
    show "?I 0 ys" by simp
  next
    fix i s
    assume i: "i < n" and inv: "?I i s"
    from i assms have len: "i < length xs" "i < length ys" by simp_all
    have "(map f (take i xs) @ drop i ys)[i := f (xs ! i)] = map f (take (Suc i) xs) @ drop (Suc i) ys"
      using len
      by (simp add: take_Suc_conv_app_nth list_update_append upd_conv_take_nth_drop drop_Suc
          Cons_nth_drop_Suc [symmetric] tl_drop)
    with inv len show "\<exists>s'. ?body i s = Some s' \<and> ?I (Suc i) s'"
      by (simp add: load_def store_def)
  qed
  then show ?thesis by simp
qed

lemma product_scalar_eq:
  assumes "length (shape t) = rank t"
    and "int (length (components t)) = prod_list (shape t)"
  shows "product_scalar t k
     = Some \<lparr>shape = shape t, components = map (\<lambda>x. x * k) (components t), rank = rank t\<rparr>"
proof -
  have p: "0 \<le> prod_list (shape t)" "nat (prod_list (shape t)) = length (components t)"
    using assms(2) by simp_all
  have fill: "for_loop [0..<length (components t)]
        (\<lambda>i comps. do { a \<leftarrow> load (components t) (int i); store comps (int i) (a * k) })
        (replicate (length (components t)) 0)
      = Some (map (\<lambda>x. x * k) (take (length (components t)) (components t))
              @ drop (length (components t)) (replicate (length (components t)) 0))"
    by (rule map_fill_loop) simp_all
  show ?thesis
    using p fill
    by (simp add: product_scalar_def shape_copy_loop [of "rank t" t, unfolded assms(1) [symmetric]]
        assms(1) [symmetric] create_tensor_byptr_eq)
qed

lemma cofactor_matrix_eq:
  assumes "is_matrix m n n"
  shows "\<exists>C. cofactor_matrix m = Some C \<and> is_matrix C n n \<and>
           (\<forall>r<n. \<forall>c<n. cofactor m r c = Some (components C ! (r + c * n)))"
proof -
  let ?Z = "\<lparr>shape = [int n, int n], components = replicate (n * n) (0::real), rank = 2\<rparr>"
  let ?items = "List.product [0..<n] [0..<n]"
  let ?k = "\<lambda>(r :: nat, c :: nat). r + c * n"
  let ?g = "\<lambda>(r :: nat, c :: nat). the (cofactor m r c)"
  let ?body = "\<lambda>(r, c) cof_matrix. do {
              v \<leftarrow> cofactor m r c;
              set_value cof_matrix v [int r, int c] }"
  have Z: "is_matrix ?Z n n" by (rule zero_matrix)
  have cof: "cofactor m r c = Some (the (cofactor m r c))" if "r < n" "c < n" for r c
    using minor_total [OF assms that] by (auto simp: cofactor_eq)
  have "\<exists>t'. for_loop ?items ?body ?Z = Some t' \<and> same_frame t' ?Z \<and>
           (\<forall>it \<in> set ?items. (\<lambda>_. True) it \<longrightarrow> components t' ! ?k it = ?g it) \<and>
           (\<forall>x. x \<notin> ?k ` {it \<in> set ?items. (\<lambda>_. True) it}
                 \<longrightarrow> components t' ! x = components ?Z ! x)"
  proof (rule write_loop)
    show "inj_on ?k {it \<in> set ?items. True}"
      by (auto simp: inj_on_def dest: cell_inj)
  next
    fix it assume "it \<in> set ?items"
    then show "?k it < length (components ?Z)"
      by (auto intro: cell_in_range)
  next
    fix it u assume it: "it \<in> set ?items" and "same_frame u ?Z"
    then have u: "is_matrix u n n"
      using Z by (simp add: is_matrix_frame)
    obtain r c where rc: "it = (r, c)" by (cases it)
    with it have lt: "r < n" "c < n" by auto
    then obtain v where "cofactor m r c = Some v"
      using cof by blast
    then show "?body it u = Some (if True then u\<lparr>components := (components u)[?k it := ?g it]\<rparr> else u)"
      using lt by (simp add: rc set_value_matrix [OF u])
  qed
  then obtain C where C: "for_loop ?items ?body ?Z = Some C" "same_frame C ?Z"
    "\<forall>it \<in> set ?items. components C ! ?k it = ?g it"
    by auto
  have 1: "cofactor_matrix m = Some C"
    using C(1) by (simp add: cofactor_matrix_def shape_at_matrix [OF assms] create_matrix_nat
        for_loop_product)
  have 2: "is_matrix C n n"
    using Z C(2) by (rule is_matrix_frame)
  have 3: "cofactor m r c = Some (components C ! (r + c * n))" if "r < n" "c < n" for r c
  proof -
    from that have "(r, c) \<in> set ?items" by simp
    with C(3) have "components C ! (r + c * n) = the (cofactor m r c)" by fastforce
    with cof [OF that] show ?thesis by simp
  qed
  from 1 2 3 show ?thesis by blast
qed

lemma adjugate_matrix_eq:
  assumes "is_matrix m n n"
  shows "\<exists>A. adjugate_matrix m = Some A \<and> is_matrix A n n \<and>
           (\<forall>r<n. \<forall>c<n. cofactor m r c = Some (components A ! (c + r * n)))"
proof -
  obtain C where C: "cofactor_matrix m = Some C" "is_matrix C n n"
    "\<forall>r<n. \<forall>c<n. cofactor m r c = Some (components C ! (r + c * n))"
    using cofactor_matrix_eq [OF assms] by blast
  obtain A where A: "transpose_mat C = Some A" "is_matrix A n n"
    "\<forall>r<n. \<forall>c<n. components A ! (c + r * n) = components C ! (r + c * n)"
    using transpose_mat_eq [OF C(2)] by blast
  have "adjugate_matrix m = Some A"
    by (simp add: adjugate_matrix_def C(1) A(1))
  with A(2,3) C(3) show ?thesis by simp
qed

text \<open>
  For every square matrix the result of \<^verbatim>\<open>inverse\<close> is the result of
  \<^verbatim>\<open>adjugate_matrix\<close>: the scaled copy that \<^verbatim>\<open>product_scalar\<close> builds is not used.
\<close>

lemma inverse_mat_is_adjugate:
  assumes "is_matrix m n n"
  shows "inverse_mat m = adjugate_matrix m"
proof -
  obtain d where d: "determinant m = Some d"
    using determinant_total [OF assms] by blast
  obtain A where A: "adjugate_matrix m = Some A" "is_matrix A n n"
    using adjugate_matrix_eq [OF assms] by blast
  have "product_scalar A (1 / d)
     = Some \<lparr>shape = shape A, components = map (\<lambda>x. x * (1 / d)) (components A), rank = rank A\<rparr>"
    using A(2) by (intro product_scalar_eq) (simp_all add: is_matrix_def)
  then show ?thesis
    by (simp add: inverse_mat_def d A(1))
qed

text \<open>
  C1. The claim is that every element of \<^verbatim>\<open>inverse(M)\<close> is the element of
  \<^verbatim>\<open>adjugate_matrix(M)\<close> divided by \<^verbatim>\<open>determinant(M)\<close>. For the \<open>3 \<times> 3\<close> matrix with 2 on
  the diagonal the determinant is 8 and the adjugate has 4 on the diagonal; \<^verbatim>\<open>inverse\<close>
  returns that adjugate, with 4 on the diagonal and not \<open>4 / 8\<close>. The scaled matrix is what
  the dropped call of \<^verbatim>\<open>product_scalar\<close> computes.
\<close>

theorem C1_inverse_returns_adjugate:
  "determinant \<lparr>shape = [3, 3], components = [2, 0, 0, 0, 2, 0, 0, 0, 2], rank = 2\<rparr> = Some 8 \<and>
   adjugate_matrix \<lparr>shape = [3, 3], components = [2, 0, 0, 0, 2, 0, 0, 0, 2], rank = 2\<rparr>
     = Some \<lparr>shape = [3, 3], components = [4, 0, 0, 0, 4, 0, 0, 0, 4], rank = 2\<rparr> \<and>
   inverse_mat \<lparr>shape = [3, 3], components = [2, 0, 0, 0, 2, 0, 0, 0, 2], rank = 2\<rparr>
     = Some \<lparr>shape = [3, 3], components = [4, 0, 0, 0, 4, 0, 0, 0, 4], rank = 2\<rparr> \<and>
   product_scalar \<lparr>shape = [3, 3], components = [4, 0, 0, 0, 4, 0, 0, 0, 4], rank = 2\<rparr> (1 / 8)
     = Some \<lparr>shape = [3, 3], components = [1 / 2, 0, 0, 0, 1 / 2, 0, 0, 0, 1 / 2], rank = 2\<rparr>"
proof -
  let ?D = "\<lparr>shape = [3, 3], components = [2, 0, 0, 0, 2, 0, 0, 0, 2 :: real], rank = 2\<rparr>"
  let ?A = "\<lparr>shape = [3, 3], components = [4, 0, 0, 0, 4, 0, 0, 0, 4 :: real], rank = 2\<rparr>"
  have D: "is_matrix ?D 3 3" and A: "is_matrix ?A 3 3"
    by (simp_all add: is_matrix_def)
  have cases3: "r = 0 \<or> r = 1 \<or> r = 2" if "r < 3" for r :: nat
    using that by auto
  have cof: "cofactor ?D r c = Some (if r = c then 4 else 0)" if "r < 3" "c < 3" for r c
    using cases3 [OF that(1)] cases3 [OF that(2)]
    by (elim disjE)
      (simp_all add: cofactor_eq minor_eq [OF D] sub_matrix_spec_def upt_0_3 determinant_2x2
        is_matrix_def)
  have three: "{..<3::nat} = {0, 1, 2}" by auto
  have "determinant ?D = Some (\<Sum>r<3. components ?D ! r * (if r = 0 then 4 else 0))"
    using D by (rule determinant_expand) (simp_all add: cof)
  then have det: "determinant ?D = Some 8"
    by (simp add: three)
  obtain X where X: "adjugate_matrix ?D = Some X" "is_matrix X 3 3"
    "\<forall>r<3. \<forall>c<3. cofactor ?D r c = Some (components X ! (c + r * 3))"
    using adjugate_matrix_eq [OF D] by blast
  have "X = ?A"
  proof (rule matrix_eqI [OF X(2) A])
    fix i j :: nat assume ij: "i < 3" "j < 3"
    with X(3) cof [of j i] have "components X ! (i + j * 3) = (if j = i then 4 else 0)"
      by simp
    moreover have "components ?A ! (i + j * 3) = (if j = i then 4 else 0)"
      using cases3 [OF ij(1)] cases3 [OF ij(2)] by (elim disjE) simp_all
    ultimately show "components X ! (i + j * 3) = components ?A ! (i + j * 3)"
      by simp
  qed
  with X(1) have adj: "adjugate_matrix ?D = Some ?A" by simp
  have inv: "inverse_mat ?D = Some ?A"
    using inverse_mat_is_adjugate [OF D] adj by simp
  have "product_scalar ?A (1 / 8)
     = Some \<lparr>shape = shape ?A, components = map (\<lambda>x. x * (1 / 8)) (components ?A), rank = rank ?A\<rparr>"
    by (rule product_scalar_eq) simp_all
  then have ps: "product_scalar ?A (1 / 8)
     = Some \<lparr>shape = [3, 3], components = [1 / 2, 0, 0, 0, 1 / 2, 0, 0, 0, 1 / 2], rank = 2\<rparr>"
    by simp
  from det adj inv ps show ?thesis by simp
qed

section \<open>Element-wise operations allocate and leave their operands alone\<close>

text \<open>
  What a tensor reference denotes in a store, and when it is valid: both addresses are
  allocated, hold arrays of the right kind, and satisfy the data-model invariant.
\<close>

definition shape_of :: "heap \<Rightarrow> tensor_ref \<Rightarrow> int list" where
  "shape_of h t = (case h ! shape_ptr t of IntArray xs \<Rightarrow> xs | RealArray _ \<Rightarrow> [])"

definition components_of :: "heap \<Rightarrow> tensor_ref \<Rightarrow> real list" where
  "components_of h t = (case h ! components_ptr t of RealArray xs \<Rightarrow> xs | IntArray _ \<Rightarrow> [])"

definition valid_tensor :: "heap \<Rightarrow> tensor_ref \<Rightarrow> bool" where
  "valid_tensor h t \<longleftrightarrow>
     shape_ptr t < length h \<and> components_ptr t < length h \<and>
     h ! shape_ptr t = IntArray (shape_of h t) \<and> h ! components_ptr t = RealArray (components_of h t) \<and>
     length (shape_of h t) = rank_of t \<and>
     int (length (components_of h t)) = prod_list (shape_of h t)"

lemma read_ints_old:
  "p < length h \<Longrightarrow> read_ints (h @ bs) p i = read_ints h p i"
  by (simp add: read_ints_def nth_append)

lemma read_reals_old:
  "p < length h \<Longrightarrow> read_reals (h @ bs) p i = read_reals h p i"
  by (simp add: read_reals_def nth_append)

lemma read_ints_valid:
  "valid_tensor h t \<Longrightarrow> i < rank_of t \<Longrightarrow> read_ints h (shape_ptr t) i = Some (shape_of h t ! i)"
  by (simp add: valid_tensor_def read_ints_def)

lemma read_reals_valid:
  "valid_tensor h t \<Longrightarrow> i < length (components_of h t)
     \<Longrightarrow> read_reals h (components_ptr t) i = Some (components_of h t ! i)"
  by (simp add: valid_tensor_def read_reals_def)

lemma read_ints_new:
  "read_ints (h @ IntArray xs # bs) (length h) i = (if i < length xs then Some (xs ! i) else None)"
  by (simp add: read_ints_def)

lemma write_ints_new:
  "i < length xs \<Longrightarrow>
     write_ints (h @ IntArray xs # bs) (length h) i v = Some (h @ IntArray (xs[i := v]) # bs)"
  by (simp add: write_ints_def)

lemma write_reals_new:
  "i < length xs \<Longrightarrow>
     write_reals (h @ a # RealArray xs # bs) (Suc (length h)) i v
       = Some (h @ a # RealArray (xs[i := v]) # bs)"
  by (simp add: write_reals_def nth_append list_update_append)

lemma shape_copy_st_eq:
  assumes "valid_tensor h lhs"
  shows "shape_copy_st lhs h
           = Some (length h, prod_list (shape_of h lhs), h @ [IntArray (shape_of h lhs)])"
proof -
  let ?S = "shape_of h lhs"
  let ?r = "rank_of lhs"
  let ?body = "\<lambda>i (len, h'). do {
               s \<leftarrow> read_ints h' (shape_ptr lhs) i;
               h'' \<leftarrow> write_ints h' (length h) i s;
               Some (len * s, h'') }"
  let ?I = "\<lambda>k (len, h'). len = prod_list (take k ?S)
              \<and> h' = h @ [IntArray (take k ?S @ replicate (?r - k) 0)]"
  from assms have S: "length ?S = ?r" and p: "shape_ptr lhs < length h"
    by (simp_all add: valid_tensor_def)
  have "\<exists>s'. for_loop [0..<?r] ?body (1, h @ [IntArray (replicate ?r 0)]) = Some s' \<and> ?I ?r s'"
  proof (rule for_loop_rule [where I = ?I])
    show "?I 0 (1, h @ [IntArray (replicate ?r 0)])" by simp
  next
    fix i s
    assume i: "i < ?r" and inv: "?I i s"
    have upd: "(take i ?S @ replicate (?r - i) 0)[i := ?S ! i]
                 = take (Suc i) ?S @ replicate (?r - Suc i) 0"
      using i S
      by (intro nth_equalityI) (auto simp: nth_list_update nth_append less_Suc_eq min_def)
    have rd: "read_ints (h @ bs) (shape_ptr lhs) i = Some (?S ! i)" for bs
      using read_ints_valid [OF assms i] p by (simp add: read_ints_old)
    have wr: "write_ints (h @ [IntArray (take i ?S @ replicate (?r - i) 0)]) (length h) i (?S ! i)
                = Some (h @ [IntArray (take (Suc i) ?S @ replicate (?r - Suc i) 0)])"
      using i S by (simp add: write_ints_new upd)
    show "\<exists>s'. ?body i s = Some s' \<and> ?I (Suc i) s'"
      using inv i S by (auto simp: rd wr take_Suc_conv_app_nth)
  qed
  then show ?thesis
    using S by (auto simp: shape_copy_st_def malloc_ints_def)
qed

lemma zero_fill_st:
  assumes "n \<le> m"
  shows "for_loop [0..<n] (\<lambda>i h'. write_reals h' (Suc (length h)) i 0)
           (h @ [a, RealArray (replicate m 0)])
           = Some (h @ [a, RealArray (replicate m 0)])"
proof -
  let ?I = "\<lambda>(k :: nat) h'. h' = h @ [a, RealArray (replicate m 0)]"
  have "\<exists>s'. for_loop [0..<n] (\<lambda>i h'. write_reals h' (Suc (length h)) i 0)
           (h @ [a, RealArray (replicate m 0)]) = Some s' \<and> ?I n s'"
  proof (rule for_loop_rule [where I = ?I])
    show "?I 0 (h @ [a, RealArray (replicate m 0)])" by simp
  next
    fix i s
    assume i: "i < n" and inv: "?I i s"
    from i assms have "(replicate m (0::real))[i := 0] = replicate m 0"
      by (simp add: list_update_same_conv)
    with i assms inv show "\<exists>s'. write_reals s (Suc (length h)) i 0 = Some s' \<and> ?I (Suc i) s'"
      by (simp add: write_reals_new)
  qed
  then show ?thesis by simp
qed

lemma create_tensor_byptr_st_eq:
  assumes "0 \<le> prod_list S"
  shows "create_tensor_byptr_st (length S) (length h) (h @ [IntArray S])
           = Some (\<lparr>shape_ptr = length h, components_ptr = Suc (length h), rank_of = length S\<rparr>,
                   h @ [IntArray S, RealArray (replicate (nat (prod_list S)) 0)])"
proof -
  let ?I = "\<lambda>k len. len = prod_list (take k S)"
  have "\<exists>s'. for_loop [0..<length S]
           (\<lambda>i len. do { s \<leftarrow> read_ints (h @ [IntArray S]) (length h) i; Some (len * s) }) 1 = Some s'
           \<and> ?I (length S) s'"
  proof (rule for_loop_rule [where I = ?I])
    show "?I 0 1" by simp
  next
    fix i s
    assume "i < length S" and "?I i s"
    then show "\<exists>s'. do { x \<leftarrow> read_ints (h @ [IntArray S]) (length h) i; Some (s * x) } = Some s'
                 \<and> ?I (Suc i) s'"
      by (simp add: read_ints_new take_Suc_conv_app_nth)
  qed
  then have len: "for_loop [0..<length S]
           (\<lambda>i len. do { s \<leftarrow> read_ints (h @ [IntArray S]) (length h) i; Some (len * s) }) 1
             = Some (prod_list S)"
    by simp
  have fill: "for_loop [0..<nat (prod_list S)] (\<lambda>i h'. write_reals h' (Suc (length h)) i 0)
                (h @ [IntArray S, RealArray (replicate (nat (prod_list S)) 0)])
           = Some (h @ [IntArray S, RealArray (replicate (nat (prod_list S)) 0)])"
    by (rule zero_fill_st) simp
  show ?thesis
    using assms by (simp add: create_tensor_byptr_st_def len malloc_reals_def fill)
qed

lemma fill_st:
  assumes "n \<le> length zs"
    and "\<And>i cur. i < n \<Longrightarrow> length cur = length zs \<Longrightarrow>
           body i (h @ [a, RealArray cur]) = Some (h @ [a, RealArray (cur[i := g i])])"
  shows "for_loop [0..<n] body (h @ [a, RealArray zs])
           = Some (h @ [a, RealArray (map g [0..<n] @ drop n zs)])"
proof -
  let ?I = "\<lambda>k h'. h' = h @ [a, RealArray (map g [0..<k] @ drop k zs)]"
  have "\<exists>s'. for_loop [0..<n] body (h @ [a, RealArray zs]) = Some s' \<and> ?I n s'"
  proof (rule for_loop_rule [where I = ?I])
    show "?I 0 (h @ [a, RealArray zs])" by simp
  next
    fix i s
    assume i: "i < n" and inv: "?I i s"
    from i assms(1) have len: "i < length zs" by simp
    have "(map g [0..<i] @ drop i zs)[i := g i] = map g [0..<Suc i] @ drop (Suc i) zs"
      using len
      by (simp add: list_update_append upd_conv_take_nth_drop drop_Suc tl_drop
          Cons_nth_drop_Suc [symmetric])
    moreover have "body i (h @ [a, RealArray (map g [0..<i] @ drop i zs)])
            = Some (h @ [a, RealArray ((map g [0..<i] @ drop i zs)[i := g i])])"
      using i len by (intro assms(2)) simp_all
    ultimately show "\<exists>s'. body i s = Some s' \<and> ?I (Suc i) s'"
      using inv by simp
  qed
  then show ?thesis by simp
qed

lemma binary_st_eq:
  assumes "valid_tensor h lhs" and "valid_tensor h rhs"
    and "length (components_of h lhs) \<le> length (components_of h rhs)"
  shows "binary_st f lhs rhs h
     = Some (\<lparr>shape_ptr = length h, components_ptr = Suc (length h), rank_of = rank_of lhs\<rparr>,
             h @ [IntArray (shape_of h lhs),
                  RealArray (map (\<lambda>i. f (components_of h lhs ! i) (components_of h rhs ! i))
                               [0..<length (components_of h lhs)])])"
proof -
  let ?S = "shape_of h lhs"
  let ?L = "components_of h lhs"
  let ?R = "components_of h rhs"
  from assms(1) have S: "length ?S = rank_of lhs" and n: "int (length ?L) = prod_list ?S"
    and lp: "components_ptr lhs < length h"
    by (simp_all add: valid_tensor_def)
  from assms(2) have rp: "components_ptr rhs < length h"
    by (simp add: valid_tensor_def)
  from n have n': "0 \<le> prod_list ?S" "nat (prod_list ?S) = length ?L"
    by simp_all
  have ct: "create_tensor_byptr_st (rank_of lhs) (length h) (h @ [IntArray ?S])
           = Some (\<lparr>shape_ptr = length h, components_ptr = Suc (length h), rank_of = rank_of lhs\<rparr>,
                   h @ [IntArray ?S, RealArray (replicate (length ?L) 0)])"
    using create_tensor_byptr_st_eq [OF n'(1), of h] by (simp add: S n'(2))
  have fill: "for_loop [0..<length ?L]
        (\<lambda>i h'. do {
            a \<leftarrow> read_reals h' (components_ptr lhs) i;
            b \<leftarrow> read_reals h' (components_ptr rhs) i;
            write_reals h' (Suc (length h)) i (f a b) })
        (h @ [IntArray ?S, RealArray (replicate (length ?L) 0)])
      = Some (h @ [IntArray ?S, RealArray (map (\<lambda>i. f (?L ! i) (?R ! i)) [0..<length ?L]
                 @ drop (length ?L) (replicate (length ?L) 0))])"
  proof (rule fill_st)
    show "length ?L \<le> length (replicate (length ?L) (0::real))" by simp
  next
    fix i and cur :: "real list"
    assume i: "i < length ?L" and cur: "length cur = length (replicate (length ?L) (0::real))"
    have "read_reals (h @ [IntArray ?S, RealArray cur]) (components_ptr lhs) i = Some (?L ! i)"
      using read_reals_valid [OF assms(1) i] lp by (simp add: read_reals_old)
    moreover have "read_reals (h @ [IntArray ?S, RealArray cur]) (components_ptr rhs) i = Some (?R ! i)"
      using read_reals_valid [OF assms(2), of i] i assms(3) rp by (simp add: read_reals_old)
    ultimately show "do {
            a \<leftarrow> read_reals (h @ [IntArray ?S, RealArray cur]) (components_ptr lhs) i;
            b \<leftarrow> read_reals (h @ [IntArray ?S, RealArray cur]) (components_ptr rhs) i;
            write_reals (h @ [IntArray ?S, RealArray cur]) (Suc (length h)) i (f a b) }
        = Some (h @ [IntArray ?S, RealArray (cur[i := f (?L ! i) (?R ! i)])])"
      using i cur by (simp add: write_reals_new)
  qed
  show ?thesis
    by (simp add: binary_st_def shape_copy_st_eq [OF assms(1)] ct n'(2) fill)
qed

lemma scalar_st_eq:
  assumes "valid_tensor h lhs"
  shows "scalar_st f lhs k h
     = Some (\<lparr>shape_ptr = length h, components_ptr = Suc (length h), rank_of = rank_of lhs\<rparr>,
             h @ [IntArray (shape_of h lhs),
                  RealArray (map (\<lambda>i. f (components_of h lhs ! i) k)
                               [0..<length (components_of h lhs)])])"
proof -
  let ?S = "shape_of h lhs"
  let ?L = "components_of h lhs"
  from assms(1) have S: "length ?S = rank_of lhs" and n: "int (length ?L) = prod_list ?S"
    and lp: "components_ptr lhs < length h"
    by (simp_all add: valid_tensor_def)
  from n have n': "0 \<le> prod_list ?S" "nat (prod_list ?S) = length ?L"
    by simp_all
  have ct: "create_tensor_byptr_st (rank_of lhs) (length h) (h @ [IntArray ?S])
           = Some (\<lparr>shape_ptr = length h, components_ptr = Suc (length h), rank_of = rank_of lhs\<rparr>,
                   h @ [IntArray ?S, RealArray (replicate (length ?L) 0)])"
    using create_tensor_byptr_st_eq [OF n'(1), of h] by (simp add: S n'(2))
  have fill: "for_loop [0..<length ?L]
        (\<lambda>i h'. do {
            a \<leftarrow> read_reals h' (components_ptr lhs) i;
            write_reals h' (Suc (length h)) i (f a k) })
        (h @ [IntArray ?S, RealArray (replicate (length ?L) 0)])
      = Some (h @ [IntArray ?S, RealArray (map (\<lambda>i. f (?L ! i) k) [0..<length ?L]
                 @ drop (length ?L) (replicate (length ?L) 0))])"
  proof (rule fill_st)
    show "length ?L \<le> length (replicate (length ?L) (0::real))" by simp
  next
    fix i and cur :: "real list"
    assume i: "i < length ?L" and cur: "length cur = length (replicate (length ?L) (0::real))"
    have "read_reals (h @ [IntArray ?S, RealArray cur]) (components_ptr lhs) i = Some (?L ! i)"
      using read_reals_valid [OF assms(1) i] lp by (simp add: read_reals_old)
    then show "do {
            a \<leftarrow> read_reals (h @ [IntArray ?S, RealArray cur]) (components_ptr lhs) i;
            write_reals (h @ [IntArray ?S, RealArray cur]) (Suc (length h)) i (f a k) }
        = Some (h @ [IntArray ?S, RealArray (cur[i := f (?L ! i) k])])"
      using i cur by (simp add: write_reals_new)
  qed
  show ?thesis
    by (simp add: scalar_st_def shape_copy_st_eq [OF assms(1)] ct n'(2) fill)
qed

text \<open>
  \<open>unchanged h h' t\<close>: the tensor \<open>t\<close> denotes the same shape and components in \<open>h'\<close> as in
  \<open>h\<close>. \<open>fresh_result h lhs rhs res\<close>: the call returned a tensor whose two arrays were
  allocated by the call (their addresses lie beyond every block of \<open>h\<close>), which is valid,
  has the rank and shape of \<open>lhs\<close>, and every block of \<open>h\<close>, so the arrays of both operands,
  is as it was.
\<close>

definition unchanged :: "heap \<Rightarrow> heap \<Rightarrow> tensor_ref \<Rightarrow> bool" where
  "unchanged h h' t \<longleftrightarrow>
     valid_tensor h' t \<and> shape_of h' t = shape_of h t \<and> components_of h' t = components_of h t"

definition fresh_result ::
  "heap \<Rightarrow> tensor_ref \<Rightarrow> tensor_ref \<Rightarrow> (tensor_ref \<times> heap) option \<Rightarrow> bool" where
  "fresh_result h lhs rhs res =
     (case res of
        None \<Rightarrow> False
      | Some (t, h') \<Rightarrow>
          length h \<le> shape_ptr t \<and> length h \<le> components_ptr t \<and>
          shape_ptr t \<noteq> components_ptr t \<and>
          valid_tensor h' t \<and> rank_of t = rank_of lhs \<and> shape_of h' t = shape_of h lhs \<and>
          take (length h) h' = h \<and> unchanged h h' lhs \<and> unchanged h h' rhs)"

lemma unchanged_append:
  assumes "valid_tensor h t"
  shows "unchanged h (h @ bs) t"
  using assms
  by (simp add: unchanged_def valid_tensor_def shape_of_def components_of_def nth_append)

lemma fresh_result_append:
  assumes "valid_tensor h lhs" and "valid_tensor h rhs"
    and "length S = rank_of lhs" and "S = shape_of h lhs" and "int (length C) = prod_list S"
  shows "fresh_result h lhs rhs
           (Some (\<lparr>shape_ptr = length h, components_ptr = Suc (length h), rank_of = rank_of lhs\<rparr>,
                  h @ [IntArray S, RealArray C]))"
  using assms unchanged_append [OF assms(1), of "[IntArray S, RealArray C]"]
    unchanged_append [OF assms(2), of "[IntArray S, RealArray C]"]
  by (simp add: fresh_result_def valid_tensor_def shape_of_def components_of_def nth_append)

lemma binary_st_fresh:
  assumes "valid_tensor h lhs" and "valid_tensor h rhs" and "shape_of h rhs = shape_of h lhs"
  shows "fresh_result h lhs rhs (binary_st f lhs rhs h)"
proof -
  from assms have "int (length (components_of h lhs)) = int (length (components_of h rhs))"
    by (simp add: valid_tensor_def)
  then have len: "length (components_of h lhs) \<le> length (components_of h rhs)"
    by simp
  from assms(1) have "length (shape_of h lhs) = rank_of lhs"
    "int (length (components_of h lhs)) = prod_list (shape_of h lhs)"
    by (simp_all add: valid_tensor_def)
  then show ?thesis
    unfolding binary_st_eq [OF assms(1,2) len]
    by (intro fresh_result_append assms(1,2)) simp_all
qed

lemma scalar_st_fresh:
  assumes "valid_tensor h lhs" and "valid_tensor h rhs"
  shows "fresh_result h lhs rhs (scalar_st f lhs k h)"
proof -
  from assms(1) have "length (shape_of h lhs) = rank_of lhs"
    "int (length (components_of h lhs)) = prod_list (shape_of h lhs)"
    by (simp_all add: valid_tensor_def)
  then show ?thesis
    unfolding scalar_st_eq [OF assms(1)]
    by (intro fresh_result_append assms(1,2)) simp_all
qed

text \<open>
  C7. For two tensors of identical shape, each of \<^verbatim>\<open>sum\<close>, \<^verbatim>\<open>subtract\<close>, \<^verbatim>\<open>divide\<close>,
  \<^verbatim>\<open>hadamard\<close>, \<^verbatim>\<open>sum_scalar\<close>, \<^verbatim>\<open>subtract_scalar\<close>, \<^verbatim>\<open>divide_scalar\<close> and
  \<^verbatim>\<open>product_scalar\<close> returns a newly allocated tensor of that shape and leaves the shape,
  rank and components of its operands unchanged.
\<close>

theorem C7_elementwise_ops_allocate:
  assumes "valid_tensor h lhs" and "valid_tensor h rhs" and "shape_of h rhs = shape_of h lhs"
  shows "fresh_result h lhs rhs (sum_st lhs rhs h) \<and>
         fresh_result h lhs rhs (subtract_st lhs rhs h) \<and>
         fresh_result h lhs rhs (divide_st lhs rhs h) \<and>
         fresh_result h lhs rhs (hadamard_st lhs rhs h) \<and>
         fresh_result h lhs rhs (sum_scalar_st lhs k h) \<and>
         fresh_result h lhs rhs (subtract_scalar_st lhs k h) \<and>
         fresh_result h lhs rhs (divide_scalar_st lhs k h) \<and>
         fresh_result h lhs rhs (product_scalar_st lhs k h)"
  unfolding sum_st_def subtract_st_def divide_st_def hadamard_st_def sum_scalar_st_def
    subtract_scalar_st_def divide_scalar_st_def product_scalar_st_def
  using binary_st_fresh [OF assms] scalar_st_fresh [OF assms(1,2)] by simp

theorem C7_elementwise_ops_allocate_witness:
  "(let h = [IntArray [2], RealArray [1, 2], IntArray [2], RealArray [3, 4]];
        lhs = \<lparr>shape_ptr = 0, components_ptr = 1, rank_of = 1\<rparr>;
        rhs = \<lparr>shape_ptr = 2, components_ptr = 3, rank_of = 1\<rparr>
    in valid_tensor h lhs \<and> valid_tensor h rhs \<and> shape_of h rhs = shape_of h lhs \<and>
       fresh_result h lhs rhs (sum_st lhs rhs h) \<and>
       fresh_result h lhs rhs (product_scalar_st lhs 3 h) \<and>
       sum_st lhs rhs h
         = Some (\<lparr>shape_ptr = 4, components_ptr = 5, rank_of = 1\<rparr>,
                 h @ [IntArray [2], RealArray [4, 6]]) \<and>
       product_scalar_st lhs 3 h
         = Some (\<lparr>shape_ptr = 4, components_ptr = 5, rank_of = 1\<rparr>,
                 h @ [IntArray [2], RealArray [3, 6]]))"
proof -
  let ?h = "[IntArray [2], RealArray [1, 2], IntArray [2], RealArray [3, 4]]"
  let ?lhs = "\<lparr>shape_ptr = 0, components_ptr = 1, rank_of = 1\<rparr>"
  let ?rhs = "\<lparr>shape_ptr = 2, components_ptr = 3, rank_of = 1\<rparr>"
  have v: "valid_tensor ?h ?lhs" "valid_tensor ?h ?rhs" "shape_of ?h ?rhs = shape_of ?h ?lhs"
    by (simp_all add: valid_tensor_def shape_of_def components_of_def)
  have c: "components_of ?h ?lhs = [1, 2]" "components_of ?h ?rhs = [3, 4]" "shape_of ?h ?lhs = [2]"
    by (simp_all add: shape_of_def components_of_def)
  have len: "length (components_of ?h ?lhs) \<le> length (components_of ?h ?rhs)"
    unfolding c by simp
  have s: "sum_st ?lhs ?rhs ?h
         = Some (\<lparr>shape_ptr = 4, components_ptr = 5, rank_of = 1\<rparr>,
                 ?h @ [IntArray [2], RealArray [4, 6]])"
    unfolding sum_st_def binary_st_eq [OF v(1,2) len] c by (simp add: upt_0_2)
  have p: "product_scalar_st ?lhs 3 ?h
         = Some (\<lparr>shape_ptr = 4, components_ptr = 5, rank_of = 1\<rparr>,
                 ?h @ [IntArray [2], RealArray [3, 6]])"
    unfolding product_scalar_st_def scalar_st_eq [OF v(1)] c by (simp add: upt_0_2)
  from C7_elementwise_ops_allocate [OF v, of 3] v s p show ?thesis
    by (simp add: Let_def)
qed

text \<open>
  The store-level \<^verbatim>\<open>product_scalar\<close> computes what the value-level one computes, and the
  operand denotes the same tensor afterwards: this is what lets \<open>inverse_mat\<close> drop the call.
\<close>

definition tensor_at :: "heap \<Rightarrow> tensor_ref \<Rightarrow> Tensor" where
  "tensor_at h t = \<lparr>shape = shape_of h t, components = components_of h t, rank = rank_of t\<rparr>"

lemma product_scalar_refines:
  assumes "valid_tensor h lhs"
  shows "\<exists>t h'. product_scalar_st lhs k h = Some (t, h') \<and>
           product_scalar (tensor_at h lhs) k = Some (tensor_at h' t) \<and>
           tensor_at h' lhs = tensor_at h lhs"
proof -
  let ?L = "components_of h lhs"
  let ?t = "\<lparr>shape_ptr = length h, components_ptr = Suc (length h), rank_of = rank_of lhs\<rparr>"
  let ?h' = "h @ [IntArray (shape_of h lhs), RealArray (map (\<lambda>i. ?L ! i * k) [0..<length ?L])]"
  have st: "product_scalar_st lhs k h = Some (?t, ?h')"
    unfolding product_scalar_st_def by (rule scalar_st_eq [OF assms])
  have m: "map (\<lambda>i. xs ! i * k) [0..<length xs] = map (\<lambda>x. x * k) xs" for xs :: "real list"
    by (rule nth_equalityI) simp_all
  have "product_scalar (tensor_at h lhs) k
     = Some \<lparr>shape = shape (tensor_at h lhs),
             components = map (\<lambda>x. x * k) (components (tensor_at h lhs)),
             rank = rank (tensor_at h lhs)\<rparr>"
    using assms by (intro product_scalar_eq) (simp_all add: tensor_at_def valid_tensor_def)
  moreover have "tensor_at ?h' ?t
     = \<lparr>shape = shape_of h lhs, components = map (\<lambda>x. x * k) ?L, rank = rank_of lhs\<rparr>"
    by (simp add: tensor_at_def shape_of_def components_of_def nth_append m)
  moreover have "tensor_at ?h' lhs = tensor_at h lhs"
    using unchanged_append [OF assms, of "[IntArray (shape_of h lhs),
       RealArray (map (\<lambda>i. ?L ! i * k) [0..<length ?L])]"]
    by (simp add: tensor_at_def unchanged_def)
  ultimately show ?thesis
    using st by (simp add: tensor_at_def)
qed

end
